theory Spec2Isabelle
  imports Main "HOL-Library.Extended_Nat"
begin

section \<open>The graph interface and the colour state\<close>

text \<open>
  The engine in \<^verbatim>\<open>breadth_first_search.py\<close> reads a graph only through
  \<^verbatim>\<open>out_edges\<close>, \<^verbatim>\<open>in_edges\<close>, \<^verbatim>\<open>source\<close> and \<^verbatim>\<open>target\<close>. These four
  operations belong to the graph module, which the engine imports; they are the fields of
  the record below, the lists being the iteration order of a vertex's incident edges.
\<close>

record ('v, 'e) graph =
  out_edges :: "'v \<Rightarrow> 'e list"
  in_edges :: "'v \<Rightarrow> 'e list"
  source :: "'e \<Rightarrow> 'v"
  target :: "'e \<Rightarrow> 'v"

datatype color = WHITE | GRAY | BLACK

text \<open>
  The visitor hooks return nothing that the engine reads, so what a run does to its visitor
  is the sequence of hook calls it makes. The trace below records these calls in order,
  one constructor per hook of \<^verbatim>\<open>DefaultBreadthFirstSearchVisitor\<close>, together with the
  writes to the colour map (\<^verbatim>\<open>pmap_vcolor[v] = c\<close>).
\<close>

datatype ('v, 'e) event =
    DiscoverVertex 'v
  | ExamineEdge 'e
  | ExamineVertex 'v
  | TreeEdge 'e
  | NonTreeEdge 'e
  | GrayTarget 'e
  | BlackTarget 'e
  | FinishVertex 'v
  | SetColor 'v color

text \<open>
  The colour map is read with its default policy applied, hence a total function. The
  deque \<^verbatim>\<open>stack\<close> is a list whose head is the left end: \<^verbatim>\<open>append\<close> (below
  \<open>append_right\<close>) adds at the right, \<^verbatim>\<open>pop\<close> removes at the right and
  \<^verbatim>\<open>appendleft\<close> adds at the left.
\<close>

record ('v, 'e) bfs_state =
  pmap_vcolor :: "'v \<Rightarrow> color"
  stack :: "'v list"
  trace :: "('v, 'e) event list"

definition call :: "('v, 'e) event \<Rightarrow> ('v, 'e) bfs_state \<Rightarrow> ('v, 'e) bfs_state" where
  "call ev st = st\<lparr>trace := trace st @ [ev]\<rparr>"

definition set_color :: "'v \<Rightarrow> color \<Rightarrow> ('v, 'e) bfs_state \<Rightarrow> ('v, 'e) bfs_state" where
  "set_color v c st =
     st\<lparr>pmap_vcolor := (pmap_vcolor st)(v := c), trace := trace st @ [SetColor v c]\<rparr>"

definition append_right :: "'v \<Rightarrow> ('v, 'e) bfs_state \<Rightarrow> ('v, 'e) bfs_state" where
  "append_right s st = st\<lparr>stack := stack st @ [s]\<rparr>"

definition appendleft :: "'v \<Rightarrow> ('v, 'e) bfs_state \<Rightarrow> ('v, 'e) bfs_state" where
  "appendleft v st = st\<lparr>stack := v # stack st\<rparr>"

section \<open>The traversal engine\<close>

text \<open>Lines 56 to 59: the body of \<^verbatim>\<open>for s in sources\<close>, then the loop itself.\<close>

definition init_source :: "'v \<Rightarrow> ('v, 'e) bfs_state \<Rightarrow> ('v, 'e) bfs_state" where
  "init_source s st = append_right s (call (DiscoverVertex s) (set_color s GRAY st))"

fun init_sources :: "'v list \<Rightarrow> ('v, 'e) bfs_state \<Rightarrow> ('v, 'e) bfs_state" where
  "init_sources [] st = st"
| "init_sources (s # ss) st = init_sources ss (init_source s st)"

text \<open>Lines 66 to 78: the body of \<^verbatim>\<open>for e in _out_edges(u, g)\<close>.\<close>

definition bfs_edge ::
  "('e \<Rightarrow> 'v) \<Rightarrow> ('e \<Rightarrow> bool) \<Rightarrow> 'e \<Rightarrow> ('v, 'e) bfs_state \<Rightarrow> ('v, 'e) bfs_state" where
  "bfs_edge tgt if_push e st0 =
     (let v = tgt e;
          st = call (ExamineEdge e) st0;
          color_v = pmap_vcolor st v
      in if color_v = WHITE then
           (let st = call (DiscoverVertex v) (set_color v GRAY (call (TreeEdge e) st))
            in if if_push e then appendleft v st else st)
         else if color_v = GRAY then call (GrayTarget e) st
         else call (BlackTarget e) st)"

fun bfs_edges ::
  "('e \<Rightarrow> 'v) \<Rightarrow> ('e \<Rightarrow> bool) \<Rightarrow> 'e list \<Rightarrow> ('v, 'e) bfs_state \<Rightarrow> ('v, 'e) bfs_state" where
  "bfs_edges tgt if_push [] st = st"
| "bfs_edges tgt if_push (e # es) st = bfs_edges tgt if_push es (bfs_edge tgt if_push e st)"

text \<open>Lines 64 to 80: what one iteration of \<^verbatim>\<open>while stack\<close> does with the popped vertex.\<close>

definition bfs_vertex ::
  "('v \<Rightarrow> 'e list) \<Rightarrow> ('e \<Rightarrow> 'v) \<Rightarrow> ('e \<Rightarrow> bool) \<Rightarrow> 'v \<Rightarrow> ('v, 'e) bfs_state
     \<Rightarrow> ('v, 'e) bfs_state" where
  "bfs_vertex oe tgt if_push u st =
     call (FinishVertex u)
       (set_color u BLACK
         (bfs_edges tgt if_push (oe u) (call (ExamineVertex u) st)))"

text \<open>Line 62: \<^verbatim>\<open>u = stack.pop()\<close> on a non-empty deque.\<close>

definition pop :: "('v, 'e) bfs_state \<Rightarrow> 'v \<times> ('v, 'e) bfs_state" where
  "pop st = (last (stack st), st\<lparr>stack := butlast (stack st)\<rparr>)"

definition bfs_iteration ::
  "('v \<Rightarrow> 'e list) \<Rightarrow> ('e \<Rightarrow> 'v) \<Rightarrow> ('e \<Rightarrow> bool) \<Rightarrow> ('v, 'e) bfs_state \<Rightarrow> ('v, 'e) bfs_state" where
  "bfs_iteration oe tgt if_push st = (case pop st of (u, st') \<Rightarrow> bfs_vertex oe tgt if_push u st')"

text \<open>
  Lines 61 to 80. The loop runs for as long as the deque is not empty; a run that never
  empties it has the value \<open>None\<close>.
\<close>

partial_function (option) bfs_loop ::
  "('v \<Rightarrow> 'e list) \<Rightarrow> ('e \<Rightarrow> 'v) \<Rightarrow> ('e \<Rightarrow> bool) \<Rightarrow> ('v, 'e) bfs_state
     \<Rightarrow> ('v, 'e) bfs_state option" where
  "bfs_loop oe tgt if_push st =
     (if stack st = [] then Some st
      else bfs_loop oe tgt if_push (bfs_iteration oe tgt if_push st))"

declare bfs_loop.simps [code]

text \<open>
  Lines 41 to 80. \<^verbatim>\<open>sources\<close> is given as the list of its elements in iteration order;
  \<^verbatim>\<open>if_push = None\<close> stands for the filter that accepts every edge.
\<close>

definition breadth_first_search_graph ::
  "('v, 'e) graph \<Rightarrow> 'v list \<Rightarrow> ('v \<Rightarrow> color) \<Rightarrow> ('e \<Rightarrow> bool) option \<Rightarrow> bool
     \<Rightarrow> ('v, 'e) bfs_state option" where
  "breadth_first_search_graph g sources pmap if_push forward =
     (let oe = (if forward then out_edges g else in_edges g);
          tgt = (if forward then target g else source g);
          if_push' = (case if_push of None \<Rightarrow> (\<lambda>e. True) | Some f \<Rightarrow> f)
      in bfs_loop oe tgt if_push'
           (init_sources sources \<lparr>pmap_vcolor = pmap, stack = [], trace = []\<rparr>))"

text \<open>Lines 83 to 92: the single-source entry point calls the engine with \<^verbatim>\<open>{s}\<close>.\<close>

definition breadth_first_search ::
  "'v \<Rightarrow> ('v, 'e) graph \<Rightarrow> ('v \<Rightarrow> color) \<Rightarrow> ('e \<Rightarrow> bool) option \<Rightarrow> bool
     \<Rightarrow> ('v, 'e) bfs_state option" where
  "breadth_first_search s g pmap if_push forward =
     breadth_first_search_graph g [s] pmap if_push forward"

section \<open>Fixtures\<close>

text \<open>
  A graph built from a list of edges \<open>(u, v, i)\<close>: the edge number \<open>i\<close> from \<open>u\<close> to \<open>v\<close>;
  the incident edges of a vertex are listed in the order of the list.
\<close>

definition graph_of :: "(nat \<times> nat \<times> nat) list \<Rightarrow> (nat, nat \<times> nat \<times> nat) graph" where
  "graph_of es =
     \<lparr>out_edges = (\<lambda>u. filter (\<lambda>e. fst e = u) es),
      in_edges = (\<lambda>v. filter (\<lambda>e. fst (snd e) = v) es),
      source = fst,
      target = (\<lambda>e. fst (snd e))\<rparr>"

definition all_white :: "nat \<Rightarrow> color" where
  "all_white = (\<lambda>v. WHITE)"

text \<open>Vertex 0 leads to 1 and 2, vertex 2 leads to 3; vertex 4 is apart.\<close>

definition fork_graph :: "(nat, nat \<times> nat \<times> nat) graph" where
  "fork_graph = graph_of [(0, 1, 0), (0, 2, 1), (2, 3, 2)]"

section \<open>Reading a trace\<close>

text \<open>What one pass through lines 67 to 78 reports for edge \<open>e\<close> under the colour map \<open>cm\<close>.\<close>

definition edge_events :: "('e \<Rightarrow> 'v) \<Rightarrow> ('v \<Rightarrow> color) \<Rightarrow> 'e \<Rightarrow> ('v, 'e) event list" where
  "edge_events tgt cm e =
     ExamineEdge e #
       (case cm (tgt e) of
          WHITE \<Rightarrow> [TreeEdge e, SetColor (tgt e) GRAY, DiscoverVertex (tgt e)]
        | GRAY \<Rightarrow> [GrayTarget e]
        | BLACK \<Rightarrow> [BlackTarget e])"

text \<open>The vertices reported by \<^verbatim>\<open>examine_vertex\<close>, in order: the order of expansion.\<close>

fun examined :: "('v, 'e) event list \<Rightarrow> 'v list" where
  "examined [] = []"
| "examined (ExamineVertex u # evs) = u # examined evs"
| "examined (ev # evs) = examined evs"

text \<open>
  The far endpoints of the tree edges that pass the filter, in order: by lines 70 to 74
  these are the vertices given to \<^verbatim>\<open>appendleft\<close>.
\<close>

fun pushed :: "('e \<Rightarrow> 'v) \<Rightarrow> ('e \<Rightarrow> bool) \<Rightarrow> ('v, 'e) event list \<Rightarrow> 'v list" where
  "pushed tgt if_push [] = []"
| "pushed tgt if_push (TreeEdge e # evs) =
     (if if_push e then tgt e # pushed tgt if_push evs else pushed tgt if_push evs)"
| "pushed tgt if_push (ev # evs) = pushed tgt if_push evs"

text \<open>
  A last-in first-out expansion order: every examined vertex is the most recently
  discovered one among those not examined yet. The first argument lists the discovered,
  not yet examined vertices, the most recent first.
\<close>

fun lifo_expansion :: "'v list \<Rightarrow> ('v, 'e) event list \<Rightarrow> bool" where
  "lifo_expansion pending [] = True"
| "lifo_expansion pending (DiscoverVertex v # evs) = lifo_expansion (v # pending) evs"
| "lifo_expansion [] (ExamineVertex u # evs) = False"
| "lifo_expansion (p # pending) (ExamineVertex u # evs) = (p = u \<and> lifo_expansion pending evs)"
| "lifo_expansion pending (ev # evs) = lifo_expansion pending evs"

text \<open>The colour map after the writes of a trace.\<close>

fun replay :: "('v \<Rightarrow> color) \<Rightarrow> ('v, 'e) event list \<Rightarrow> ('v \<Rightarrow> color)" where
  "replay cm [] = cm"
| "replay cm (SetColor v c # evs) = replay (cm(v := c)) evs"
| "replay cm (ev # evs) = replay cm evs"

text \<open>
  Edge classification along a trace that starts under the colour map \<open>cm\<close>: every
  \<^verbatim>\<open>examine_edge\<close> is followed at once by the one classification hook that the colour
  of the far endpoint selects, and no classification hook is called anywhere else.
\<close>

fun classified :: "('e \<Rightarrow> 'v) \<Rightarrow> ('v \<Rightarrow> color) \<Rightarrow> ('v, 'e) event list \<Rightarrow> bool" where
  "classified tgt cm [] = True"
| "classified tgt cm [ExamineEdge e] = False"
| "classified tgt cm (ExamineEdge e # ev # evs) =
     (ev = (case cm (tgt e) of WHITE \<Rightarrow> TreeEdge e | GRAY \<Rightarrow> GrayTarget e | BLACK \<Rightarrow> BlackTarget e)
      \<and> classified tgt cm evs)"
| "classified tgt cm (TreeEdge e # evs) = False"
| "classified tgt cm (GrayTarget e # evs) = False"
| "classified tgt cm (BlackTarget e # evs) = False"
| "classified tgt cm (SetColor v c # evs) = classified tgt (cm(v := c)) evs"
| "classified tgt cm (ev # evs) = classified tgt cm evs"

text \<open>The order unvisited, in-progress, finished.\<close>

fun rank :: "color \<Rightarrow> nat" where
  "rank WHITE = 0"
| "rank GRAY = 1"
| "rank BLACK = 2"

text \<open>
  Every colour write of the trace moves its vertex one step forward in that order, from
  the colour the vertex has at that moment.
\<close>

fun advances :: "('v \<Rightarrow> color) \<Rightarrow> ('v, 'e) event list \<Rightarrow> bool" where
  "advances cm [] = True"
| "advances cm (SetColor v c # evs) = (rank c = Suc (rank (cm v)) \<and> advances (cm(v := c)) evs)"
| "advances cm (ev # evs) = advances cm evs"

text \<open>The events of a trace that concern the colour of one vertex.\<close>

fun about :: "'v \<Rightarrow> ('v, 'e) event \<Rightarrow> bool" where
  "about v (SetColor w c) = (w = v)"
| "about v (DiscoverVertex w) = (w = v)"
| "about v (FinishVertex w) = (w = v)"
| "about v ev = False"

definition history :: "'v \<Rightarrow> ('v, 'e) event list \<Rightarrow> ('v, 'e) event list" where
  "history v evs = filter (about v) evs"

definition lifecycle :: "'v \<Rightarrow> color \<Rightarrow> ('v, 'e) event list" where
  "lifecycle v c =
     (case c of
        WHITE \<Rightarrow> []
      | GRAY \<Rightarrow> [SetColor v GRAY, DiscoverVertex v]
      | BLACK \<Rightarrow> [SetColor v GRAY, DiscoverVertex v, SetColor v BLACK, FinishVertex v])"

text \<open>Reachability along the edges that the traversal follows.\<close>

definition edge_rel :: "('v \<Rightarrow> 'e list) \<Rightarrow> ('e \<Rightarrow> 'v) \<Rightarrow> ('v \<times> 'v) set" where
  "edge_rel oe tgt = {(u, v). \<exists>e \<in> set (oe u). tgt e = v}"

definition reachable :: "('v \<Rightarrow> 'e list) \<Rightarrow> ('e \<Rightarrow> 'v) \<Rightarrow> 'v set \<Rightarrow> 'v set" where
  "reachable oe tgt S = (edge_rel oe tgt)\<^sup>* `` S"

text \<open>The graph with every edge turned around.\<close>

definition reverse_graph :: "('v, 'e) graph \<Rightarrow> ('v, 'e) graph" where
  "reverse_graph g =
     \<lparr>out_edges = in_edges g, in_edges = out_edges g, source = target g, target = source g\<rparr>"

text \<open>Vertex 0 leads to 1 and 2, vertex 1 leads to 2, vertex 2 leads back to 0.\<close>

definition triangle_graph :: "(nat, nat \<times> nat \<times> nat) graph" where
  "triangle_graph = graph_of [(0, 1, 0), (0, 2, 1), (1, 2, 2), (2, 0, 3)]"

section \<open>Invariants of the main loop\<close>

text \<open>
  What has been examined, followed by the deque read from its right end, is the sources
  from the last to the first followed by what was pushed in the main loop.
\<close>

definition fifo_inv ::
  "('e \<Rightarrow> 'v) \<Rightarrow> ('e \<Rightarrow> bool) \<Rightarrow> 'v list \<Rightarrow> ('v, 'e) bfs_state \<Rightarrow> bool" where
  "fifo_inv tgt ip ss st \<longleftrightarrow>
     examined (trace st) @ rev (stack st) = rev ss @ pushed tgt ip (trace st)"

text \<open>The trace so far is classified, and its writes give the present colour map.\<close>

definition class_inv :: "('e \<Rightarrow> 'v) \<Rightarrow> ('v \<Rightarrow> color) \<Rightarrow> ('v, 'e) bfs_state \<Rightarrow> bool" where
  "class_inv tgt cm st \<longleftrightarrow>
     classified tgt cm (trace st) \<and> replay cm (trace st) = pmap_vcolor st"

text \<open>The vertices on the deque are distinct and in progress.\<close>

definition gray_inv :: "('v, 'e) bfs_state \<Rightarrow> bool" where
  "gray_inv st \<longleftrightarrow> distinct (stack st) \<and> (\<forall>v \<in> set (stack st). pmap_vcolor st v = GRAY)"

text \<open>The same while the edges of the popped vertex \<open>u\<close> are examined.\<close>

definition gray_inv_at :: "'v \<Rightarrow> ('v, 'e) bfs_state \<Rightarrow> bool" where
  "gray_inv_at u st \<longleftrightarrow> gray_inv st \<and> u \<notin> set (stack st) \<and> pmap_vcolor st u = GRAY"

text \<open>The colour writes so far advance, and they give the present colour map.\<close>

definition adv_inv :: "('v \<Rightarrow> color) \<Rightarrow> ('v, 'e) bfs_state \<Rightarrow> bool" where
  "adv_inv cm st \<longleftrightarrow> advances cm (trace st) \<and> replay cm (trace st) = pmap_vcolor st"

text \<open>The events about each vertex are those its present colour stands for.\<close>

definition life_inv :: "('v, 'e) bfs_state \<Rightarrow> bool" where
  "life_inv st \<longleftrightarrow> (\<forall>v. history v (trace st) = lifecycle v (pmap_vcolor st v))"

text \<open>No vertex is examined twice, or examined and still on the deque.\<close>

definition once_inv :: "('v, 'e) bfs_state \<Rightarrow> bool" where
  "once_inv st \<longleftrightarrow>
     distinct (examined (trace st) @ stack st) \<and>
     (\<forall>v \<in> set (examined (trace st)) \<union> set (stack st). pmap_vcolor st v \<noteq> WHITE)"

text \<open>A set of vertices that no followed edge leaves.\<close>

definition closed_under :: "'v set \<Rightarrow> ('v \<Rightarrow> 'e list) \<Rightarrow> ('e \<Rightarrow> 'v) \<Rightarrow> bool" where
  "closed_under V oe tgt \<longleftrightarrow> (\<forall>u \<in> V. \<forall>e \<in> set (oe u). tgt e \<in> V)"

text \<open>The quantity that every iteration of the main loop decreases.\<close>

definition potential :: "'v set \<Rightarrow> ('v, 'e) bfs_state \<Rightarrow> nat" where
  "potential V st = card {v \<in> V. pmap_vcolor st v = WHITE} + length (stack st)"

text \<open>What has been coloured was reached from a source.\<close>

definition reach_inv ::
  "('v \<Rightarrow> 'e list) \<Rightarrow> ('e \<Rightarrow> 'v) \<Rightarrow> 'v set \<Rightarrow> ('v, 'e) bfs_state \<Rightarrow> bool" where
  "reach_inv oe tgt S st \<longleftrightarrow> (\<forall>v. pmap_vcolor st v \<noteq> WHITE \<longrightarrow> v \<in> reachable oe tgt S)"

text \<open>No edge leads from a finished vertex to an unvisited one.\<close>

definition black_closed :: "('v \<Rightarrow> 'e list) \<Rightarrow> ('e \<Rightarrow> 'v) \<Rightarrow> ('v, 'e) bfs_state \<Rightarrow> bool" where
  "black_closed oe tgt st \<longleftrightarrow>
     (\<forall>v. pmap_vcolor st v = BLACK \<longrightarrow> (\<forall>e \<in> set (oe v). pmap_vcolor st (tgt e) \<noteq> WHITE))"

text \<open>Every vertex in progress waits on the deque, the vertex \<open>u\<close> under examination apart.\<close>

definition gray_waiting :: "'v set \<Rightarrow> ('v, 'e) bfs_state \<Rightarrow> bool" where
  "gray_waiting U st \<longleftrightarrow> (\<forall>v. pmap_vcolor st v = GRAY \<longrightarrow> v \<in> set (stack st) \<or> v \<in> U)"

text \<open>The iterations made so far and the potential left do not exceed the number of vertices.\<close>

definition bound_inv :: "'v set \<Rightarrow> ('v, 'e) bfs_state \<Rightarrow> bool" where
  "bound_inv V st \<longleftrightarrow>
     set (stack st) \<subseteq> V \<and> length (examined (trace st)) + potential V st \<le> card V"

text \<open>The filter that rejects every edge, and the colours of some vertices after a run.\<close>

definition reject_all :: "'e \<Rightarrow> bool" where
  "reject_all = (\<lambda>e. False)"

definition colors_after :: "('v, 'e) bfs_state option \<Rightarrow> 'v list \<Rightarrow> color list option" where
  "colors_after r vs = map_option (\<lambda>st. map (pmap_vcolor st) vs) r"

text \<open>
  Discovery along a trace that starts under the colour map \<open>cm\<close>: every
  \<^verbatim>\<open>examine_edge\<close> of an edge whose far endpoint is unvisited at that moment is followed
  at once by \<^verbatim>\<open>tree_edge\<close>, the write of in-progress and \<^verbatim>\<open>discover_vertex\<close>.
\<close>

fun reported :: "('e \<Rightarrow> 'v) \<Rightarrow> ('v \<Rightarrow> color) \<Rightarrow> ('v, 'e) event list \<Rightarrow> bool" where
  "reported tgt cm [] = True"
| "reported tgt cm (ExamineEdge e # evs) =
     ((cm (tgt e) = WHITE \<longrightarrow>
         take 3 evs = [TreeEdge e, SetColor (tgt e) GRAY, DiscoverVertex (tgt e)])
      \<and> reported tgt cm evs)"
| "reported tgt cm (SetColor v c # evs) = reported tgt (cm(v := c)) evs"
| "reported tgt cm (ev # evs) = reported tgt cm evs"

text \<open>The trace so far reports every discovery, and its writes give the present colour map.\<close>

definition report_inv :: "('e \<Rightarrow> 'v) \<Rightarrow> ('v \<Rightarrow> color) \<Rightarrow> ('v, 'e) bfs_state \<Rightarrow> bool" where
  "report_inv tgt cm st \<longleftrightarrow>
     reported tgt cm (trace st) \<and> replay cm (trace st) = pmap_vcolor st"

text \<open>Every edge of every vertex examined so far has been examined.\<close>

definition edges_examined :: "('v \<Rightarrow> 'e list) \<Rightarrow> ('v, 'e) bfs_state \<Rightarrow> bool" where
  "edges_examined oe st \<longleftrightarrow>
     (\<forall>u \<in> set (examined (trace st)). \<forall>e \<in> set (oe u). ExamineEdge e \<in> set (trace st))"

text \<open>
  The far endpoints of the tree edges so far are distinct, none of them is a source, they
  and the sources are not unvisited, and those not examined yet are in progress.
\<close>

definition disc_inv :: "('e \<Rightarrow> 'v) \<Rightarrow> 'v list \<Rightarrow> ('v, 'e) bfs_state \<Rightarrow> bool" where
  "disc_inv tgt ss st \<longleftrightarrow>
     distinct (pushed tgt (\<lambda>e. True) (trace st)) \<and>
     set ss \<inter> set (pushed tgt (\<lambda>e. True) (trace st)) = {} \<and>
     (\<forall>v \<in> set ss \<union> set (pushed tgt (\<lambda>e. True) (trace st)). pmap_vcolor st v \<noteq> WHITE) \<and>
     (\<forall>v \<in> set (pushed tgt (\<lambda>e. True) (trace st)).
        v \<notin> set (examined (trace st)) \<longrightarrow> pmap_vcolor st v = GRAY)"

section \<open>The shortest-paths engine\<close>

text \<open>
  Modelled from the spec: \<^verbatim>\<open>dijkstra_shortest_paths\<close> is imported by
  \<^verbatim>\<open>test_dijkstra_shortest_path.py\<close> but its module is not among the sources. The
  definitions follow section 4.4 of the specification. Weights are natural numbers, a
  distance is an extended natural number whose \<open>\<infinity>\<close> is the sentinel of an unreached
  vertex, the predecessor map has a key only where an edge was recorded, and the priority
  structure is the list of the vertices that wait for extraction, keyed by their present
  distance.
\<close>

record ('v, 'e) dijkstra_state =
  distance_map :: "'v \<Rightarrow> enat"
  predecessor_map :: "'v \<rightharpoonup> 'e set"
  queue :: "'v list"

text \<open>Modelled from the spec: the predecessor set of a vertex, empty when it has no key.\<close>

definition preds :: "('v, 'e) dijkstra_state \<Rightarrow> 'v \<Rightarrow> 'e set" where
  "preds st v = (case predecessor_map st v of None \<Rightarrow> {} | Some P \<Rightarrow> P)"

text \<open>
  Modelled from the spec: the relaxation of one outgoing edge \<open>e\<close> of the extracted vertex
  \<open>u\<close>, with its three cases (strictly better, tied, worse).
\<close>

definition relax ::
  "('e \<Rightarrow> nat) \<Rightarrow> ('e \<Rightarrow> 'v) \<Rightarrow> 'v \<Rightarrow> 'e \<Rightarrow> ('v, 'e) dijkstra_state \<Rightarrow> ('v, 'e) dijkstra_state" where
  "relax weight tgt u e st =
     (let v = tgt e;
          candidate = distance_map st u + enat (weight e)
      in if candidate < distance_map st v then
           st\<lparr>distance_map := (distance_map st)(v := candidate),
              predecessor_map := (predecessor_map st)(v \<mapsto> {e}),
              queue := List.insert v (queue st)\<rparr>
         else if candidate = distance_map st v then
           st\<lparr>predecessor_map := (predecessor_map st)(v \<mapsto> insert e (preds st v))\<rparr>
         else st)"

text \<open>Modelled from the spec: the relaxation of each outgoing edge of \<open>u\<close> in turn.\<close>

fun relax_edges ::
  "('e \<Rightarrow> nat) \<Rightarrow> ('e \<Rightarrow> 'v) \<Rightarrow> 'v \<Rightarrow> 'e list \<Rightarrow> ('v, 'e) dijkstra_state
     \<Rightarrow> ('v, 'e) dijkstra_state" where
  "relax_edges weight tgt u [] st = st"
| "relax_edges weight tgt u (e # es) st = relax_edges weight tgt u es (relax weight tgt u e st)"

text \<open>
  Modelled from the spec: the main loop extracts the waiting vertex of least distance and
  relaxes its outgoing edges, until the priority structure is empty.
\<close>

partial_function (option) dijkstra_loop ::
  "('v \<Rightarrow> 'e list) \<Rightarrow> ('e \<Rightarrow> 'v) \<Rightarrow> ('e \<Rightarrow> nat) \<Rightarrow> ('v, 'e) dijkstra_state
     \<Rightarrow> ('v, 'e) dijkstra_state option" where
  "dijkstra_loop oe tgt weight st =
     (if queue st = [] then Some st
      else (let u = arg_min_list (distance_map st) (queue st)
            in dijkstra_loop oe tgt weight
                 (relax_edges weight tgt u (oe u) (st\<lparr>queue := removeAll u (queue st)\<rparr>))))"

declare dijkstra_loop.simps [code]

text \<open>
  Modelled from the spec: the distance of the source is 0, every other distance is the
  sentinel, no vertex has a predecessor yet, and the priority structure holds the source.
\<close>

definition dijkstra_shortest_paths ::
  "('v, 'e) graph \<Rightarrow> 'v \<Rightarrow> ('e \<Rightarrow> nat) \<Rightarrow> ('v, 'e) dijkstra_state option" where
  "dijkstra_shortest_paths g s weight =
     dijkstra_loop (out_edges g) (target g) weight
       \<lparr>distance_map = (\<lambda>v. \<infinity>)(s := 0), predecessor_map = Map.empty, queue = [s]\<rparr>"

text \<open>Two parallel edges from vertex 0 to vertex 1, as in \<^verbatim>\<open>test_parallel_edges\<close>.\<close>

definition parallel_graph :: "(nat, nat \<times> nat \<times> nat) graph" where
  "parallel_graph = graph_of [(0, 1, 0), (0, 1, 1)]"

definition unit_weight :: "nat \<times> nat \<times> nat \<Rightarrow> nat" where
  "unit_weight = (\<lambda>e. 1)"


section \<open>Properties of the engine's steps\<close>

lemma call_simps [simp]:
  "pmap_vcolor (call ev st) = pmap_vcolor st"
  "stack (call ev st) = stack st"
  "trace (call ev st) = trace st @ [ev]"
  by (simp_all add: call_def)

lemma set_color_simps [simp]:
  "pmap_vcolor (set_color v c st) = (pmap_vcolor st)(v := c)"
  "stack (set_color v c st) = stack st"
  "trace (set_color v c st) = trace st @ [SetColor v c]"
  by (simp_all add: set_color_def)

lemma append_right_simps [simp]:
  "pmap_vcolor (append_right s st) = pmap_vcolor st"
  "stack (append_right s st) = stack st @ [s]"
  "trace (append_right s st) = trace st"
  by (simp_all add: append_right_def)

lemma appendleft_simps [simp]:
  "pmap_vcolor (appendleft v st) = pmap_vcolor st"
  "stack (appendleft v st) = v # stack st"
  "trace (appendleft v st) = trace st"
  by (simp_all add: appendleft_def)

lemma init_source_simps [simp]:
  "pmap_vcolor (init_source s st) = (pmap_vcolor st)(s := GRAY)"
  "stack (init_source s st) = stack st @ [s]"
  "trace (init_source s st) = trace st @ [SetColor s GRAY, DiscoverVertex s]"
  by (simp_all add: init_source_def)

lemma bfs_edge_color:
  "pmap_vcolor (bfs_edge tgt ip e st) =
     (if pmap_vcolor st (tgt e) = WHITE then (pmap_vcolor st)(tgt e := GRAY) else pmap_vcolor st)"
  by (simp add: bfs_edge_def Let_def)

lemma bfs_edge_stack:
  "stack (bfs_edge tgt ip e st) =
     (if pmap_vcolor st (tgt e) = WHITE \<and> ip e then tgt e # stack st else stack st)"
  by (simp add: bfs_edge_def Let_def)

lemma bfs_edge_trace:
  "trace (bfs_edge tgt ip e st) = trace st @ edge_events tgt (pmap_vcolor st) e"
  by (cases "pmap_vcolor st (tgt e)") (simp_all add: bfs_edge_def Let_def edge_events_def)

lemma bfs_vertex_trace:
  "trace (bfs_vertex oe tgt ip u st) =
     trace (bfs_edges tgt ip (oe u) (call (ExamineVertex u) st)) @ [SetColor u BLACK, FinishVertex u]"
  by (simp add: bfs_vertex_def)

lemma bfs_vertex_color:
  "pmap_vcolor (bfs_vertex oe tgt ip u st) =
     (pmap_vcolor (bfs_edges tgt ip (oe u) (call (ExamineVertex u) st)))(u := BLACK)"
  by (simp add: bfs_vertex_def)

lemma bfs_vertex_stack:
  "stack (bfs_vertex oe tgt ip u st) = stack (bfs_edges tgt ip (oe u) (call (ExamineVertex u) st))"
  by (simp add: bfs_vertex_def)

lemma bfs_iteration_unfold:
  "bfs_iteration oe tgt ip st =
     bfs_vertex oe tgt ip (last (stack st)) (st\<lparr>stack := butlast (stack st)\<rparr>)"
  by (simp add: bfs_iteration_def pop_def)

lemma bfs_loop_rule_aux:
  "bfs_loop oe tgt ip st = Some st' \<Longrightarrow>
   (\<forall>s. I s \<longrightarrow> stack s \<noteq> [] \<longrightarrow> I (bfs_iteration oe tgt ip s)) \<longrightarrow> I st \<longrightarrow>
   I st' \<and> stack st' = []"
proof (induction oe tgt ip st st' rule: bfs_loop.raw_induct[rotated 1, consumes 1, case_names 1])
  case (1 loop oe tgt ip st st')
  show ?case
  proof (cases "stack st = []")
    case True
    with 1(2) show ?thesis by simp
  next
    case False
    with 1(2) have "loop oe tgt ip (bfs_iteration oe tgt ip st) = Some st'" by simp
    note ih = 1(1)[OF this]
    show ?thesis
    proof (intro impI)
      assume step: "\<forall>s. I s \<longrightarrow> stack s \<noteq> [] \<longrightarrow> I (bfs_iteration oe tgt ip s)" and "I st"
      then have "I (bfs_iteration oe tgt ip st)" using False by simp
      with ih step show "I st' \<and> stack st' = []" by simp
    qed
  qed
qed

text \<open>
  The invariant rule of the main loop: what holds of the state before the loop and is kept
  by every iteration holds of the state the loop returns, and the deque is empty then.
\<close>

lemma bfs_loop_rule:
  assumes run: "bfs_loop oe tgt ip st = Some st'"
    and init: "I st"
    and step: "\<And>s. I s \<Longrightarrow> stack s \<noteq> [] \<Longrightarrow> I (bfs_iteration oe tgt ip s)"
  shows "I st' \<and> stack st' = []"
proof -
  have "\<forall>s. I s \<longrightarrow> stack s \<noteq> [] \<longrightarrow> I (bfs_iteration oe tgt ip s)"
    using step by simp
  with bfs_loop_rule_aux[OF run, of I] init show ?thesis by simp
qed

lemmas bfs_eval =
  breadth_first_search_graph_def breadth_first_search_def bfs_loop.simps bfs_iteration_def
  pop_def bfs_vertex_def bfs_edge_def call_def set_color_def append_right_def appendleft_def
  init_source_def Let_def graph_of_def all_white_def

section \<open>The single-source entry point\<close>

text \<open>
  Claim C8. For every vertex \<open>s\<close>, graph, colour map, edge filter and direction, the call
  \<^verbatim>\<open>breadth_first_search(s, g, ...)\<close> is the run of
  \<^verbatim>\<open>breadth_first_search_graph(g, {s}, ...)\<close> with the same remaining arguments: it
  returns exactly when the other does, with the same final colour map and the same
  sequence of colour writes and visitor calls. Both enter the main loop with \<open>s\<close> in
  progress, reported and alone on the deque.
\<close>

theorem breadth_first_search_is_graph_search:
  "breadth_first_search s g pmap if_push forward =
     breadth_first_search_graph g [s] pmap if_push forward
   \<and> breadth_first_search s g pmap if_push forward =
     bfs_loop (if forward then out_edges g else in_edges g)
       (if forward then target g else source g)
       (case if_push of None \<Rightarrow> (\<lambda>e. True) | Some f \<Rightarrow> f)
       \<lparr>pmap_vcolor = pmap(s := GRAY), stack = [s],
        trace = [SetColor s GRAY, DiscoverVertex s]\<rparr>"
  by (simp add: breadth_first_search_def breadth_first_search_graph_def init_source_def
      set_color_def call_def append_right_def)

theorem breadth_first_search_is_graph_search_witness:
  "breadth_first_search 3 fork_graph all_white None False =
     breadth_first_search_graph fork_graph [3] all_white None False
   \<and> map_option (examined \<circ> trace) (breadth_first_search 3 fork_graph all_white None False) =
     Some [3, 2, 0]"
  using breadth_first_search_is_graph_search [of 3 fork_graph all_white None False]
  by (simp add: bfs_eval fork_graph_def)

section \<open>Direction of traversal\<close>

text \<open>
  Claim C7. With \<^verbatim>\<open>forward=False\<close> the engine iterates the incoming edges of each
  examined vertex and classifies an edge by the colour of its source, so that the run is
  the forward run on the graph with every edge turned around; with \<^verbatim>\<open>forward=True\<close>
  it iterates outgoing edges and classifies by the colour of the target.
\<close>

theorem backward_traversal:
  "breadth_first_search_graph g sources pmap if_push False =
     bfs_loop (in_edges g) (source g) (case if_push of None \<Rightarrow> (\<lambda>e. True) | Some f \<Rightarrow> f)
       (init_sources sources \<lparr>pmap_vcolor = pmap, stack = [], trace = []\<rparr>)
   \<and> breadth_first_search_graph g sources pmap if_push True =
     bfs_loop (out_edges g) (target g) (case if_push of None \<Rightarrow> (\<lambda>e. True) | Some f \<Rightarrow> f)
       (init_sources sources \<lparr>pmap_vcolor = pmap, stack = [], trace = []\<rparr>)
   \<and> breadth_first_search_graph g sources pmap if_push False =
     breadth_first_search_graph (reverse_graph g) sources pmap if_push True"
  by (simp add: breadth_first_search_graph_def reverse_graph_def)

theorem backward_traversal_witness:
  "map_option trace (breadth_first_search_graph fork_graph [3] all_white None False) =
     Some [SetColor 3 GRAY, DiscoverVertex 3,
           ExamineVertex 3, ExamineEdge (2, 3, 2), TreeEdge (2, 3, 2),
           SetColor 2 GRAY, DiscoverVertex 2, SetColor 3 BLACK, FinishVertex 3,
           ExamineVertex 2, ExamineEdge (0, 2, 1), TreeEdge (0, 2, 1),
           SetColor 0 GRAY, DiscoverVertex 0, SetColor 2 BLACK, FinishVertex 2,
           ExamineVertex 0, SetColor 0 BLACK, FinishVertex 0]
   \<and> breadth_first_search_graph fork_graph [3] all_white None False =
     breadth_first_search_graph (reverse_graph fork_graph) [3] all_white None True"
  using backward_traversal [of fork_graph "[3]" all_white None]
  by (simp add: bfs_eval fork_graph_def reverse_graph_def)

section \<open>The edge filter\<close>

text \<open>
  One pass through lines 66 to 78 for an edge that the filter rejects and whose far
  endpoint is unvisited: the four reports and the colour write are made, the deque is
  left as it was, and pushing is all that an accepting filter would add.
\<close>

lemma bfs_edge_rejected:
  assumes "pmap_vcolor st (tgt e) = WHITE" and "\<not> if_push e"
  shows "bfs_edge tgt if_push e st =
           st\<lparr>pmap_vcolor := (pmap_vcolor st)(tgt e := GRAY),
              trace := trace st @ [ExamineEdge e, TreeEdge e, SetColor (tgt e) GRAY,
                                   DiscoverVertex (tgt e)]\<rparr>"
    and "stack (bfs_edge tgt if_push e st) = stack st"
    and "bfs_edge tgt (\<lambda>e. True) e st = appendleft (tgt e) (bfs_edge tgt if_push e st)"
  using assms by (simp_all add: bfs_edge_def Let_def call_def set_color_def appendleft_def)

section \<open>Projections of a trace\<close>

lemma examined_append [simp]: "examined (xs @ ys) = examined xs @ examined ys"
  by (induction xs rule: examined.induct) simp_all

lemma pushed_append [simp]:
  "pushed tgt ip (xs @ ys) = pushed tgt ip xs @ pushed tgt ip ys"
  by (induction tgt ip xs rule: pushed.induct) simp_all

lemma replay_append [simp]: "replay cm (xs @ ys) = replay (replay cm xs) ys"
proof (induction xs arbitrary: cm)
  case Nil
  show ?case by simp
next
  case (Cons x xs)
  show ?case by (cases x) (simp_all add: Cons.IH fun_upd_def)
qed

lemma examined_edge_events [simp]: "examined (edge_events tgt cm e) = []"
  by (cases "cm (tgt e)") (simp_all add: edge_events_def)

lemma pushed_edge_events [simp]:
  "pushed tgt ip (edge_events tgt cm e) = (if cm (tgt e) = WHITE \<and> ip e then [tgt e] else [])"
  by (cases "cm (tgt e)") (simp_all add: edge_events_def)

lemma replay_edge_events [simp]:
  "replay cm (edge_events tgt cm e) = (if cm (tgt e) = WHITE then cm(tgt e := GRAY) else cm)"
  by (cases "cm (tgt e)") (simp_all add: edge_events_def)

lemma init_sources_stack [simp]: "stack (init_sources ss st) = stack st @ ss"
  by (induction ss arbitrary: st) simp_all

lemma init_sources_examined [simp]:
  "examined (trace (init_sources ss st)) = examined (trace st)"
  by (induction ss arbitrary: st) simp_all

lemma init_sources_pushed [simp]:
  "pushed tgt ip (trace (init_sources ss st)) = pushed tgt ip (trace st)"
  by (induction ss arbitrary: st) simp_all

section \<open>The trace predicates discriminate\<close>

text \<open>
  A last-in first-out expansion is accepted by \<open>lifo_expansion\<close>; an edge examined and
  not classified, an edge classified against the colour of its endpoint and a vertex
  finished before it was discovered are rejected by \<open>classified\<close> and \<open>advances\<close>.
\<close>

lemma lifo_expansion_accepts:
  "lifo_expansion []
     [DiscoverVertex (0::nat), ExamineVertex 0, TreeEdge (0::nat), DiscoverVertex 1,
      TreeEdge 1, DiscoverVertex 2, ExamineVertex 2, TreeEdge 2, DiscoverVertex 3,
      ExamineVertex 3, ExamineVertex 1]"
  by simp

lemma classified_rejects:
  "\<not> classified id (\<lambda>v. WHITE) [ExamineEdge (1::nat), ExamineEdge 2, TreeEdge 2]"
  "\<not> classified id (\<lambda>v. WHITE) [ExamineEdge (1::nat), GrayTarget 1]"
  "\<not> classified id (\<lambda>v. WHITE) [ExamineEdge (1::nat), TreeEdge 1, TreeEdge 1]"
  by simp_all

lemma advances_rejects:
  "\<not> advances (\<lambda>v. WHITE) [SetColor (1::nat) BLACK :: (nat, nat) event]"
  "\<not> advances (\<lambda>v. WHITE)
       [SetColor (1::nat) GRAY :: (nat, nat) event, SetColor 1 BLACK, SetColor 1 GRAY]"
  "\<not> advances (\<lambda>v. WHITE) [SetColor (1::nat) GRAY :: (nat, nat) event, SetColor 1 GRAY]"
  by simp_all

section \<open>The order of expansion\<close>

lemma fifo_inv_edge: "fifo_inv tgt ip ss st \<Longrightarrow> fifo_inv tgt ip ss (bfs_edge tgt ip e st)"
  by (simp add: fifo_inv_def bfs_edge_stack bfs_edge_trace)

lemma fifo_inv_edges: "fifo_inv tgt ip ss st \<Longrightarrow> fifo_inv tgt ip ss (bfs_edges tgt ip es st)"
  by (induction es arbitrary: st) (simp_all add: fifo_inv_edge)

lemma fifo_inv_iteration:
  assumes "fifo_inv tgt ip ss st" and "stack st \<noteq> []"
  shows "fifo_inv tgt ip ss (bfs_iteration oe tgt ip st)"
proof -
  let ?u = "last (stack st)"
  let ?st1 = "call (ExamineVertex ?u) (st\<lparr>stack := butlast (stack st)\<rparr>)"
  have "rev (stack st) = ?u # rev (butlast (stack st))"
    using assms(2) by (metis append_butlast_last_id rev.simps(2) rev_swap)
  with assms(1) have "fifo_inv tgt ip ss ?st1"
    by (simp add: fifo_inv_def)
  then have "fifo_inv tgt ip ss (bfs_edges tgt ip (oe ?u) ?st1)"
    by (rule fifo_inv_edges)
  then show ?thesis
    by (simp add: fifo_inv_def bfs_iteration_unfold bfs_vertex_def)
qed

lemma fifo_inv_loop:
  assumes "bfs_loop oe tgt ip (init_sources ss \<lparr>pmap_vcolor = cm, stack = [], trace = []\<rparr>) = Some st'"
  shows "examined (trace st') = rev ss @ pushed tgt ip (trace st')"
proof -
  have "fifo_inv tgt ip ss (init_sources ss \<lparr>pmap_vcolor = cm, stack = [], trace = []\<rparr>)"
    by (simp add: fifo_inv_def)
  from bfs_loop_rule[OF assms, of "fifo_inv tgt ip ss", OF this] fifo_inv_iteration
  have "fifo_inv tgt ip ss st'" and "stack st' = []" by blast+
  then show ?thesis unfolding fifo_inv_def by simp
qed

lemma fork_run:
  "\<exists>st'. breadth_first_search_graph fork_graph [0] all_white None True = Some st'
     \<and> stack st' = []
     \<and> trace st' =
         [SetColor 0 GRAY, DiscoverVertex 0,
          ExamineVertex 0, ExamineEdge (0, 1, 0), TreeEdge (0, 1, 0),
          SetColor 1 GRAY, DiscoverVertex 1, ExamineEdge (0, 2, 1), TreeEdge (0, 2, 1),
          SetColor 2 GRAY, DiscoverVertex 2, SetColor 0 BLACK, FinishVertex 0,
          ExamineVertex 1, SetColor 1 BLACK, FinishVertex 1,
          ExamineVertex 2, ExamineEdge (2, 3, 2), TreeEdge (2, 3, 2),
          SetColor 3 GRAY, DiscoverVertex 3, SetColor 2 BLACK, FinishVertex 2,
          ExamineVertex 3, SetColor 3 BLACK, FinishVertex 3]"
  by (simp add: bfs_eval fork_graph_def)

text \<open>
  Claim C1, as stated: discovered vertices are pushed at the front of the deque and the
  vertex to examine is popped from that same end, so that the most recently discovered
  vertex is expanded next. On the fork graph with source 0 the engine discovers 1, then 2,
  and then examines 1: the order of expansion is 0, 1, 2, 3 and it is not last-in
  first-out.
\<close>

theorem expansion_not_last_in_first_out:
  "map_option (examined \<circ> trace)
     (breadth_first_search_graph fork_graph [0] all_white None True) = Some [0, 1, 2, 3]
   \<and> map_option (lifo_expansion [] \<circ> trace)
     (breadth_first_search_graph fork_graph [0] all_white None True) = Some False"
  by (simp add: bfs_eval fork_graph_def)

text \<open>
  Claim C1, amended. Discovered vertices are pushed at the left end of the deque
  (\<^verbatim>\<open>appendleft\<close>) and the vertex to examine is popped from the right end
  (\<^verbatim>\<open>pop\<close>), the opposite one. So the vertices are expanded first-in first-out: first
  the sources, the last one first (they were appended at the right), then the vertices
  pushed in the main loop, in the order in which they were pushed.
\<close>

theorem expansion_first_in_first_out:
  assumes "breadth_first_search_graph g sources pmap if_push forward = Some st'"
  shows "examined (trace st') =
           rev sources @
           pushed (if forward then target g else source g)
                  (case if_push of None \<Rightarrow> (\<lambda>e. True) | Some f \<Rightarrow> f) (trace st')"
  using assms by (simp add: breadth_first_search_graph_def Let_def fifo_inv_loop)

theorem expansion_first_in_first_out_witness:
  "\<exists>st'. breadth_first_search_graph fork_graph [0] all_white None True = Some st'
     \<and> examined (trace st') = [0, 1, 2, 3]
     \<and> pushed (target fork_graph) (\<lambda>e. True) (trace st') = [1, 2, 3]"
proof -
  obtain st' where run: "breadth_first_search_graph fork_graph [0] all_white None True = Some st'"
    and tr: "trace st' =
         [SetColor 0 GRAY, DiscoverVertex 0,
          ExamineVertex 0, ExamineEdge (0, 1, 0), TreeEdge (0, 1, 0),
          SetColor 1 GRAY, DiscoverVertex 1, ExamineEdge (0, 2, 1), TreeEdge (0, 2, 1),
          SetColor 2 GRAY, DiscoverVertex 2, SetColor 0 BLACK, FinishVertex 0,
          ExamineVertex 1, SetColor 1 BLACK, FinishVertex 1,
          ExamineVertex 2, ExamineEdge (2, 3, 2), TreeEdge (2, 3, 2),
          SetColor 3 GRAY, DiscoverVertex 3, SetColor 2 BLACK, FinishVertex 2,
          ExamineVertex 3, SetColor 3 BLACK, FinishVertex 3]"
    using fork_run by blast
  have "pushed (target fork_graph) (\<lambda>e. True) (trace st') = [1, 2, 3]"
    by (simp add: tr fork_graph_def graph_of_def)
  with expansion_first_in_first_out [OF run] run show ?thesis by simp
qed

section \<open>Edge classification\<close>

lemma classified_append:
  "classified tgt cm xs \<Longrightarrow> classified tgt (replay cm xs) ys \<Longrightarrow> classified tgt cm (xs @ ys)"
proof (induction tgt cm xs rule: classified.induct)
  case (3 tgt cm e ev evs)
  then show ?case by (cases ev; cases "cm (tgt e)") (simp_all add: fun_upd_def)
qed (simp_all add: fun_upd_def)

lemma classified_edge_events: "classified tgt cm (edge_events tgt cm e)"
  by (cases "cm (tgt e)") (simp_all add: edge_events_def)

lemma class_inv_step:
  assumes "class_inv tgt cm st" and "classified tgt (pmap_vcolor st) evs"
    and "trace st1 = trace st @ evs" and "pmap_vcolor st1 = replay (pmap_vcolor st) evs"
  shows "class_inv tgt cm st1"
  using assms by (simp add: class_inv_def classified_append)

lemma class_inv_edge: "class_inv tgt cm st \<Longrightarrow> class_inv tgt cm (bfs_edge tgt ip e st)"
  by (erule class_inv_step [where evs = "edge_events tgt (pmap_vcolor st) e"])
     (simp_all add: classified_edge_events bfs_edge_trace bfs_edge_color)

lemma class_inv_edges: "class_inv tgt cm st \<Longrightarrow> class_inv tgt cm (bfs_edges tgt ip es st)"
  by (induction es arbitrary: st) (simp_all add: class_inv_edge)

lemma class_inv_init: "class_inv tgt cm st \<Longrightarrow> class_inv tgt cm (init_sources ss st)"
proof (induction ss arbitrary: st)
  case Nil
  then show ?case by simp
next
  case (Cons s ss)
  have "class_inv tgt cm (init_source s st)"
    by (rule class_inv_step [OF Cons.prems, where evs = "[SetColor s GRAY, DiscoverVertex s]"])
       simp_all
  then show ?case by (simp add: Cons.IH)
qed

lemma class_inv_iteration:
  assumes "class_inv tgt cm st"
  shows "class_inv tgt cm (bfs_iteration oe tgt ip st)"
proof -
  let ?u = "last (stack st)"
  let ?st0 = "st\<lparr>stack := butlast (stack st)\<rparr>"
  have "class_inv tgt cm (call (ExamineVertex ?u) ?st0)"
    by (rule class_inv_step [OF assms, where evs = "[ExamineVertex ?u]"]) simp_all
  then have e: "class_inv tgt cm (bfs_edges tgt ip (oe ?u) (call (ExamineVertex ?u) ?st0))"
    by (rule class_inv_edges)
  show ?thesis
    by (rule class_inv_step [OF e, where evs = "[SetColor ?u BLACK, FinishVertex ?u]"])
       (simp_all add: bfs_iteration_unfold bfs_vertex_def)
qed

lemma class_inv_loop:
  assumes "bfs_loop oe tgt ip (init_sources ss \<lparr>pmap_vcolor = cm, stack = [], trace = []\<rparr>) = Some st'"
  shows "class_inv tgt cm st'"
proof -
  have "class_inv tgt cm \<lparr>pmap_vcolor = cm, stack = [], trace = []\<rparr>"
    by (simp add: class_inv_def)
  then have "class_inv tgt cm (init_sources ss \<lparr>pmap_vcolor = cm, stack = [], trace = []\<rparr>)"
    by (rule class_inv_init)
  from bfs_loop_rule[OF assms, of "class_inv tgt cm", OF this] class_inv_iteration
  show ?thesis by blast
qed

text \<open>
  Claim C3. For every graph, colour map and visitor, every edge on which the engine calls
  \<^verbatim>\<open>examine_edge\<close> receives next exactly one classification callback among
  \<^verbatim>\<open>tree_edge\<close>, \<^verbatim>\<open>gray_target\<close> and \<^verbatim>\<open>black_target\<close>, the one selected by the
  colour that the far endpoint has at that moment; no classification is reported apart
  from these.
\<close>

theorem examined_edge_classified_once:
  assumes "breadth_first_search_graph g sources pmap if_push forward = Some st'"
  shows "classified (if forward then target g else source g) pmap (trace st')"
  using assms class_inv_loop [of _ _ _ sources pmap st']
  by (simp add: breadth_first_search_graph_def Let_def class_inv_def)


lemma triangle_run:
  "\<exists>st'. breadth_first_search_graph triangle_graph [0] all_white None True = Some st'
     \<and> stack st' = []
     \<and> pmap_vcolor st' 0 = BLACK
     \<and> trace st' =
         [SetColor 0 GRAY, DiscoverVertex 0,
          ExamineVertex 0, ExamineEdge (0, 1, 0), TreeEdge (0, 1, 0),
          SetColor 1 GRAY, DiscoverVertex 1, ExamineEdge (0, 2, 1), TreeEdge (0, 2, 1),
          SetColor 2 GRAY, DiscoverVertex 2, SetColor 0 BLACK, FinishVertex 0,
          ExamineVertex 1, ExamineEdge (1, 2, 2), GrayTarget (1, 2, 2),
          SetColor 1 BLACK, FinishVertex 1,
          ExamineVertex 2, ExamineEdge (2, 0, 3), BlackTarget (2, 0, 3),
          SetColor 2 BLACK, FinishVertex 2]"
proof -
  have "map_option (\<lambda>st'. (stack st', pmap_vcolor st' 0, trace st')) (breadth_first_search_graph triangle_graph [0] all_white None True) = Some ([], BLACK,
         [SetColor 0 GRAY, DiscoverVertex 0,
          ExamineVertex 0, ExamineEdge (0, 1, 0), TreeEdge (0, 1, 0),
          SetColor 1 GRAY, DiscoverVertex 1, ExamineEdge (0, 2, 1), TreeEdge (0, 2, 1),
          SetColor 2 GRAY, DiscoverVertex 2, SetColor 0 BLACK, FinishVertex 0,
          ExamineVertex 1, ExamineEdge (1, 2, 2), GrayTarget (1, 2, 2),
          SetColor 1 BLACK, FinishVertex 1,
          ExamineVertex 2, ExamineEdge (2, 0, 3), BlackTarget (2, 0, 3),
          SetColor 2 BLACK, FinishVertex 2])"
    by code_simp
  then show ?thesis by auto
qed

theorem examined_edge_classified_once_witness:
  "\<exists>st'. breadth_first_search_graph triangle_graph [0] all_white None True = Some st'
     \<and> classified (target triangle_graph) all_white (trace st')
     \<and> filter (\<lambda>ev. \<not> about 0 ev \<and> \<not> about 1 ev \<and> \<not> about 2 ev) (trace st') =
         [ExamineVertex 0, ExamineEdge (0, 1, 0), TreeEdge (0, 1, 0),
          ExamineEdge (0, 2, 1), TreeEdge (0, 2, 1),
          ExamineVertex 1, ExamineEdge (1, 2, 2), GrayTarget (1, 2, 2),
          ExamineVertex 2, ExamineEdge (2, 0, 3), BlackTarget (2, 0, 3)]"
proof -
  obtain st' where run: "breadth_first_search_graph triangle_graph [0] all_white None True = Some st'"
    and tr: "trace st' =
         [SetColor 0 GRAY, DiscoverVertex 0,
          ExamineVertex 0, ExamineEdge (0, 1, 0), TreeEdge (0, 1, 0),
          SetColor 1 GRAY, DiscoverVertex 1, ExamineEdge (0, 2, 1), TreeEdge (0, 2, 1),
          SetColor 2 GRAY, DiscoverVertex 2, SetColor 0 BLACK, FinishVertex 0,
          ExamineVertex 1, ExamineEdge (1, 2, 2), GrayTarget (1, 2, 2),
          SetColor 1 BLACK, FinishVertex 1,
          ExamineVertex 2, ExamineEdge (2, 0, 3), BlackTarget (2, 0, 3),
          SetColor 2 BLACK, FinishVertex 2]"
    using triangle_run by blast
  from examined_edge_classified_once [OF run] run show ?thesis
    by (simp add: tr)
qed

section \<open>The hook that is never called\<close>

lemma no_non_tree_edge_events: "NonTreeEdge x \<notin> set (edge_events tgt cm e)"
  by (cases "cm (tgt e)") (simp_all add: edge_events_def)

lemma no_non_tree_edge_edges:
  "NonTreeEdge x \<notin> set (trace st) \<Longrightarrow> NonTreeEdge x \<notin> set (trace (bfs_edges tgt ip es st))"
  by (induction es arbitrary: st) (simp_all add: bfs_edge_trace no_non_tree_edge_events)

lemma no_non_tree_edge_init:
  "NonTreeEdge x \<notin> set (trace st) \<Longrightarrow> NonTreeEdge x \<notin> set (trace (init_sources ss st))"
  by (induction ss arbitrary: st) simp_all

lemma no_non_tree_edge_iteration:
  "NonTreeEdge x \<notin> set (trace st) \<Longrightarrow> NonTreeEdge x \<notin> set (trace (bfs_iteration oe tgt ip st))"
  using no_non_tree_edge_edges
    [of x "call (ExamineVertex (last (stack st))) (st\<lparr>stack := butlast (stack st)\<rparr>)" tgt ip
        "oe (last (stack st))"]
  by (simp add: bfs_iteration_unfold bfs_vertex_trace)

lemma no_non_tree_edge_loop:
  assumes "breadth_first_search_graph g ss cm if_push forward = Some st'"
  shows "NonTreeEdge x \<notin> set (trace st')"
proof -
  let ?oe = "if forward then out_edges g else in_edges g"
  let ?tgt = "if forward then target g else source g"
  let ?ip = "case if_push of None \<Rightarrow> (\<lambda>e. True) | Some f \<Rightarrow> f"
  have run: "bfs_loop ?oe ?tgt ?ip
               (init_sources ss \<lparr>pmap_vcolor = cm, stack = [], trace = []\<rparr>) = Some st'"
    using assms by (simp add: breadth_first_search_graph_def Let_def)
  have init: "NonTreeEdge x \<notin> set (trace (init_sources ss \<lparr>pmap_vcolor = cm, stack = [], trace = []\<rparr>))"
    by (rule no_non_tree_edge_init) simp
  have "NonTreeEdge x \<notin> set (trace st') \<and> stack st' = []"
    by (rule bfs_loop_rule [OF run, where I = "\<lambda>st. NonTreeEdge x \<notin> set (trace st)", OF init])
       (rule no_non_tree_edge_iteration)
  then show ?thesis by simp
qed

text \<open>
  Claim C10. The hook \<^verbatim>\<open>non_tree_edge\<close>, although a slot of
  \<^verbatim>\<open>DefaultBreadthFirstSearchVisitor\<close>, is called by neither
  \<^verbatim>\<open>breadth_first_search_graph\<close> nor \<^verbatim>\<open>breadth_first_search\<close> on any input; an edge
  whose far endpoint is not unvisited is reported through \<^verbatim>\<open>examine_edge\<close> and then
  \<^verbatim>\<open>gray_target\<close> or \<^verbatim>\<open>black_target\<close> only.
\<close>

theorem non_tree_edge_never_called:
  "(breadth_first_search_graph g sources pmap if_push forward = Some st'
      \<longrightarrow> NonTreeEdge x \<notin> set (trace st'))
   \<and> (breadth_first_search s g pmap if_push forward = Some st'
      \<longrightarrow> NonTreeEdge x \<notin> set (trace st'))
   \<and> (pmap_vcolor st (tgt e) \<noteq> WHITE
      \<longrightarrow> trace (bfs_edge tgt ip e st) =
          trace st @ [ExamineEdge e,
                      if pmap_vcolor st (tgt e) = GRAY then GrayTarget e else BlackTarget e])"
proof (intro conjI impI)
  assume "breadth_first_search_graph g sources pmap if_push forward = Some st'"
  then show "NonTreeEdge x \<notin> set (trace st')"
    by (rule no_non_tree_edge_loop)
next
  assume "breadth_first_search s g pmap if_push forward = Some st'"
  then show "NonTreeEdge x \<notin> set (trace st')"
    unfolding breadth_first_search_def by (rule no_non_tree_edge_loop)
next
  assume "pmap_vcolor st (tgt e) \<noteq> WHITE"
  then show "trace (bfs_edge tgt ip e st) =
          trace st @ [ExamineEdge e,
                      if pmap_vcolor st (tgt e) = GRAY then GrayTarget e else BlackTarget e]"
    by (cases "pmap_vcolor st (tgt e)") (simp_all add: bfs_edge_trace edge_events_def)
qed

theorem non_tree_edge_never_called_witness:
  "\<exists>st'. breadth_first_search_graph triangle_graph [0] all_white None True = Some st'
     \<and> breadth_first_search 0 triangle_graph all_white None True = Some st'
     \<and> NonTreeEdge (1, 2, 2) \<notin> set (trace st')
     \<and> GrayTarget (1, 2, 2) \<in> set (trace st')
     \<and> trace (bfs_edge (target triangle_graph) (\<lambda>e. True) (2, 0, 3) st') =
         trace st' @ [ExamineEdge (2, 0, 3), BlackTarget (2, 0, 3)]"
proof -
  obtain st' where run: "breadth_first_search_graph triangle_graph [0] all_white None True = Some st'"
    and tr: "trace st' =
         [SetColor 0 GRAY, DiscoverVertex 0,
          ExamineVertex 0, ExamineEdge (0, 1, 0), TreeEdge (0, 1, 0),
          SetColor 1 GRAY, DiscoverVertex 1, ExamineEdge (0, 2, 1), TreeEdge (0, 2, 1),
          SetColor 2 GRAY, DiscoverVertex 2, SetColor 0 BLACK, FinishVertex 0,
          ExamineVertex 1, ExamineEdge (1, 2, 2), GrayTarget (1, 2, 2),
          SetColor 1 BLACK, FinishVertex 1,
          ExamineVertex 2, ExamineEdge (2, 0, 3), BlackTarget (2, 0, 3),
          SetColor 2 BLACK, FinishVertex 2]"
    and c0: "pmap_vcolor st' 0 = BLACK"
    using triangle_run by blast
  have run1: "breadth_first_search 0 triangle_graph all_white None True = Some st'"
    using run by (simp only: breadth_first_search_def)
  have col: "pmap_vcolor st' (target triangle_graph (2, 0, 3)) = BLACK"
    using c0 by (simp add: triangle_graph_def graph_of_def)
  have mem: "GrayTarget (1, 2, 2) \<in> set (trace st')"
    by (simp add: tr)
  from non_tree_edge_never_called
    [of triangle_graph "[0]" all_white None True st' "(1, 2, 2)" 0 st' "target triangle_graph"
        "(2, 0, 3)" "\<lambda>e. True"]
  have "NonTreeEdge (1, 2, 2) \<notin> set (trace st')"
    and "trace (bfs_edge (target triangle_graph) (\<lambda>e. True) (2, 0, 3) st') =
         trace st' @ [ExamineEdge (2, 0, 3), BlackTarget (2, 0, 3)]"
    using run col by simp_all
  with run run1 mem show ?thesis
    by (intro exI [of _ st'] conjI)
qed

section \<open>The inner loop\<close>

lemma bfs_edges_rule:
  assumes "P st" and "\<And>s e. P s \<Longrightarrow> e \<in> set es \<Longrightarrow> P (bfs_edge tgt ip e s)"
  shows "P (bfs_edges tgt ip es st)"
  using assms by (induction es arbitrary: st) simp_all

lemma bfs_edges_trace_examined [simp]:
  "examined (trace (bfs_edges tgt ip es st)) = examined (trace st)"
  by (induction es arbitrary: st) (simp_all add: bfs_edge_trace)

lemma bfs_edge_keeps_color:
  "pmap_vcolor st v \<noteq> WHITE \<Longrightarrow> pmap_vcolor (bfs_edge tgt ip e st) v = pmap_vcolor st v"
  by (auto simp: bfs_edge_color)

lemma bfs_edges_keeps_color:
  "pmap_vcolor st v \<noteq> WHITE \<Longrightarrow> pmap_vcolor (bfs_edges tgt ip es st) v = pmap_vcolor st v"
  by (induction es arbitrary: st) (simp_all add: bfs_edge_keeps_color)

lemma bfs_edge_not_white:
  "pmap_vcolor (bfs_edge tgt ip e st) (tgt e) \<noteq> WHITE"
  by (simp add: bfs_edge_color)

lemma bfs_edges_not_white:
  "e \<in> set es \<Longrightarrow> pmap_vcolor (bfs_edges tgt ip es st) (tgt e) \<noteq> WHITE"
proof (induction es arbitrary: st)
  case Nil
  then show ?case by simp
next
  case (Cons a es)
  show ?case
  proof (cases "e = a")
    case True
    then show ?thesis
      using bfs_edges_keeps_color [OF bfs_edge_not_white, of tgt ip es tgt ip a st]
      by (simp add: bfs_edge_not_white)
  next
    case False
    with Cons show ?thesis by simp
  qed
qed

section \<open>The deque holds vertices in progress\<close>

lemma gray_inv_at_edge:
  "gray_inv_at u st \<Longrightarrow> gray_inv_at u (bfs_edge tgt ip e st)"
  by (auto simp: gray_inv_at_def gray_inv_def bfs_edge_color bfs_edge_stack)

lemma gray_inv_at_edges:
  "gray_inv_at u st \<Longrightarrow> gray_inv_at u (bfs_edges tgt ip es st)"
  by (rule bfs_edges_rule) (simp_all add: gray_inv_at_edge)

lemma gray_inv_pop:
  assumes "gray_inv st" and "stack st \<noteq> []"
  shows "gray_inv_at (last (stack st)) (call ev (st\<lparr>stack := butlast (stack st)\<rparr>))"
proof -
  from assms(2) have split: "stack st = butlast (stack st) @ [last (stack st)]" by simp
  from assms(1) have "distinct (butlast (stack st) @ [last (stack st)])"
    unfolding gray_inv_def using split by simp
  then have "distinct (butlast (stack st))" and "last (stack st) \<notin> set (butlast (stack st))"
    by simp_all
  moreover have "\<forall>v \<in> set (stack st). pmap_vcolor st v = GRAY"
    using assms(1) by (simp add: gray_inv_def)
  moreover have "last (stack st) \<in> set (stack st)" using assms(2) by simp
  moreover have "set (butlast (stack st)) \<subseteq> set (stack st)"
    by (auto dest: in_set_butlastD)
  ultimately show ?thesis
    by (auto simp: gray_inv_at_def gray_inv_def)
qed

lemma gray_inv_finish:
  "gray_inv_at u st \<Longrightarrow> gray_inv (call ev (set_color u BLACK st))"
  by (auto simp: gray_inv_at_def gray_inv_def)

lemma gray_inv_iteration:
  assumes "gray_inv st" and "stack st \<noteq> []"
  shows "gray_inv (bfs_iteration oe tgt ip st)"
  unfolding bfs_iteration_unfold bfs_vertex_def
  by (intro gray_inv_finish gray_inv_at_edges gray_inv_pop assms)

lemma gray_inv_init:
  assumes "distinct ss" and "\<forall>s \<in> set ss. pmap_vcolor st s = WHITE" and "gray_inv st"
  shows "gray_inv (init_sources ss st)"
  using assms
proof (induction ss arbitrary: st)
  case Nil
  then show ?case by simp
next
  case (Cons s ss)
  have "gray_inv (init_source s st)"
    using Cons.prems by (auto simp: gray_inv_def)
  moreover have "\<forall>x \<in> set ss. pmap_vcolor (init_source s st) x = WHITE"
    using Cons.prems by auto
  ultimately show ?case using Cons.IH Cons.prems by simp
qed

section \<open>Colours only advance\<close>

lemma advances_append [simp]:
  "advances cm (xs @ ys) \<longleftrightarrow> advances cm xs \<and> advances (replay cm xs) ys"
proof (induction xs arbitrary: cm)
  case Nil
  show ?case by simp
next
  case (Cons x xs)
  show ?case by (cases x) (simp_all add: Cons.IH fun_upd_def)
qed

lemma adv_inv_step:
  assumes "adv_inv cm st" and "advances (pmap_vcolor st) evs"
    and "trace st1 = trace st @ evs" and "pmap_vcolor st1 = replay (pmap_vcolor st) evs"
  shows "adv_inv cm st1"
  using assms by (simp add: adv_inv_def)

lemma advances_edge_events: "advances cm (edge_events tgt cm e)"
  by (cases "cm (tgt e)") (simp_all add: edge_events_def)

lemma adv_inv_edge: "adv_inv cm st \<Longrightarrow> adv_inv cm (bfs_edge tgt ip e st)"
  by (erule adv_inv_step [where evs = "edge_events tgt (pmap_vcolor st) e"])
     (simp_all add: advances_edge_events bfs_edge_trace bfs_edge_color)

lemma adv_inv_edges: "adv_inv cm st \<Longrightarrow> adv_inv cm (bfs_edges tgt ip es st)"
  by (rule bfs_edges_rule) (simp_all add: adv_inv_edge)

lemma adv_inv_iteration:
  assumes "adv_inv cm st" and "gray_inv st" and "stack st \<noteq> []"
  shows "adv_inv cm (bfs_iteration oe tgt ip st)"
proof -
  let ?u = "last (stack st)"
  let ?st1 = "call (ExamineVertex ?u) (st\<lparr>stack := butlast (stack st)\<rparr>)"
  let ?st2 = "bfs_edges tgt ip (oe ?u) ?st1"
  have "adv_inv cm ?st1"
    by (rule adv_inv_step [OF assms(1), where evs = "[ExamineVertex ?u]"]) simp_all
  then have a2: "adv_inv cm ?st2" by (rule adv_inv_edges)
  have "gray_inv_at ?u ?st2"
    by (intro gray_inv_at_edges gray_inv_pop assms)
  then have gray: "pmap_vcolor ?st2 ?u = GRAY" by (simp add: gray_inv_at_def)
  show ?thesis
    by (rule adv_inv_step [OF a2, where evs = "[SetColor ?u BLACK, FinishVertex ?u]"])
       (simp_all add: gray bfs_iteration_unfold bfs_vertex_def)
qed

lemma adv_inv_init:
  assumes "distinct ss" and "\<forall>s \<in> set ss. pmap_vcolor st s = WHITE" and "adv_inv cm st"
  shows "adv_inv cm (init_sources ss st)"
  using assms
proof (induction ss arbitrary: st)
  case Nil
  then show ?case by simp
next
  case (Cons s ss)
  have "adv_inv cm (init_source s st)"
    by (rule adv_inv_step [where st = st and evs = "[SetColor s GRAY, DiscoverVertex s]"])
       (use Cons.prems in simp_all)
  moreover have "\<forall>x \<in> set ss. pmap_vcolor (init_source s st) x = WHITE"
    using Cons.prems by auto
  ultimately show ?case using Cons.IH Cons.prems by simp
qed

text \<open>
  Claim C4. In a run that starts with every vertex unvisited, from a set of sources, every
  colour write moves its vertex one step forward in the order unvisited, in-progress,
  finished: the engine writes in-progress on unvisited vertices only and finished on
  vertices in progress only, so a vertex makes each transition at most once and never
  moves backward.
\<close>

theorem colour_only_advances:
  assumes "distinct sources"
    and "breadth_first_search_graph g sources (\<lambda>v. WHITE) if_push forward = Some st'"
  shows "advances (\<lambda>v. WHITE) (trace st')"
proof -
  let ?oe = "if forward then out_edges g else in_edges g"
  let ?tgt = "if forward then target g else source g"
  let ?ip = "case if_push of None \<Rightarrow> (\<lambda>e. True) | Some f \<Rightarrow> f"
  let ?st0 = "\<lparr>pmap_vcolor = (\<lambda>v. WHITE), stack = [], trace = []\<rparr> :: ('a, 'b) bfs_state"
  let ?I = "\<lambda>st. adv_inv (\<lambda>v. WHITE) st \<and> gray_inv st"
  have run: "bfs_loop ?oe ?tgt ?ip (init_sources sources ?st0) = Some st'"
    using assms(2) by (simp add: breadth_first_search_graph_def Let_def)
  have "adv_inv (\<lambda>v. WHITE) ?st0" and "gray_inv ?st0"
    by (simp_all add: adv_inv_def gray_inv_def)
  then have init: "?I (init_sources sources ?st0)"
    using assms(1) by (simp add: adv_inv_init gray_inv_init)
  have "?I st' \<and> stack st' = []"
    by (rule bfs_loop_rule [OF run, where I = ?I, OF init])
       (simp add: adv_inv_iteration gray_inv_iteration)
  then show ?thesis by (simp add: adv_inv_def)
qed

theorem colour_only_advances_witness:
  "\<exists>st'. breadth_first_search_graph triangle_graph [0] (\<lambda>v. WHITE) None True = Some st'
     \<and> advances (\<lambda>v. WHITE) (trace st')
     \<and> filter (about 2) (trace st') =
         [SetColor 2 GRAY, DiscoverVertex 2, SetColor 2 BLACK, FinishVertex 2]"
proof -
  obtain st' where run: "breadth_first_search_graph triangle_graph [0] all_white None True = Some st'"
    and tr: "trace st' =
         [SetColor 0 GRAY, DiscoverVertex 0,
          ExamineVertex 0, ExamineEdge (0, 1, 0), TreeEdge (0, 1, 0),
          SetColor 1 GRAY, DiscoverVertex 1, ExamineEdge (0, 2, 1), TreeEdge (0, 2, 1),
          SetColor 2 GRAY, DiscoverVertex 2, SetColor 0 BLACK, FinishVertex 0,
          ExamineVertex 1, ExamineEdge (1, 2, 2), GrayTarget (1, 2, 2),
          SetColor 1 BLACK, FinishVertex 1,
          ExamineVertex 2, ExamineEdge (2, 0, 3), BlackTarget (2, 0, 3),
          SetColor 2 BLACK, FinishVertex 2]"
    using triangle_run by blast
  have run': "breadth_first_search_graph triangle_graph [0] (\<lambda>v. WHITE) None True = Some st'"
    using run by (simp only: all_white_def)
  have d: "distinct [0::nat]" by simp
  have f: "filter (about 2) (trace st') =
         [SetColor 2 GRAY, DiscoverVertex 2, SetColor 2 BLACK, FinishVertex 2]"
    by (simp add: tr)
  from colour_only_advances [OF d run'] run' f show ?thesis
    by (intro exI [of _ st'] conjI)
qed

section \<open>Termination of the main loop\<close>

lemma white_count_gray:
  assumes "finite V" and "t \<in> V" and "cm t = WHITE"
  shows "Suc (card {v \<in> V. (cm(t := GRAY)) v = WHITE}) = card {v \<in> V. cm v = WHITE}"
proof -
  let ?A = "{v \<in> V. cm v = WHITE}"
  have eq: "{v \<in> V. (cm(t := GRAY)) v = WHITE} = ?A - {t}"
    by auto
  have "Suc (card (?A - {t})) = card ?A"
    by (rule card_Suc_Diff1) (use assms in simp_all)
  then show ?thesis by (simp only: eq)
qed

lemma white_count_black:
  assumes "finite V"
  shows "card {v \<in> V. (cm(u := BLACK)) v = WHITE} \<le> card {v \<in> V. cm v = WHITE}"
  by (rule card_mono) (use assms in auto)

lemma potential_edge:
  assumes "finite V" and "tgt e \<in> V"
  shows "potential V (bfs_edge tgt ip e st) \<le> potential V st"
proof (cases "pmap_vcolor st (tgt e) = WHITE")
  case True
  from white_count_gray [of V "tgt e" "pmap_vcolor st"] assms True
  show ?thesis by (simp add: potential_def bfs_edge_color bfs_edge_stack True)
next
  case False
  then show ?thesis by (simp add: potential_def bfs_edge_color bfs_edge_stack)
qed

lemma potential_edges:
  assumes "finite V" and "tgt ` set es \<subseteq> V"
  shows "potential V (bfs_edges tgt ip es st) \<le> potential V st"
  using assms(2)
proof (induction es arbitrary: st)
  case Nil
  show ?case by simp
next
  case (Cons e es)
  have "potential V (bfs_edges tgt ip es (bfs_edge tgt ip e st))
          \<le> potential V (bfs_edge tgt ip e st)"
    using Cons by simp
  also have "\<dots> \<le> potential V st"
    using Cons.prems by (intro potential_edge assms(1)) simp
  finally show ?case by simp
qed

lemma stack_edges_subset:
  "set (stack (bfs_edges tgt ip es st)) \<subseteq> set (stack st) \<union> tgt ` set es"
proof (induction es arbitrary: st)
  case Nil
  show ?case by simp
next
  case (Cons e es)
  have "set (stack (bfs_edge tgt ip e st)) \<subseteq> set (stack st) \<union> {tgt e}"
    by (auto simp: bfs_edge_stack)
  with Cons [of "bfs_edge tgt ip e st"] show ?case by auto
qed

lemma potential_iteration:
  assumes "finite V" and "closed_under V oe tgt" and "set (stack st) \<subseteq> V" and "stack st \<noteq> []"
  shows "potential V (bfs_iteration oe tgt ip st) < potential V st"
    and "set (stack (bfs_iteration oe tgt ip st)) \<subseteq> V"
proof -
  let ?u = "last (stack st)"
  let ?st1 = "call (ExamineVertex ?u) (st\<lparr>stack := butlast (stack st)\<rparr>)"
  let ?st2 = "bfs_edges tgt ip (oe ?u) ?st1"
  have uV: "?u \<in> V" using assms(3,4) by (meson last_in_set subsetD)
  then have tV: "tgt ` set (oe ?u) \<subseteq> V"
    using assms(2) by (auto simp: closed_under_def)
  have "set (butlast (stack st)) \<subseteq> V"
    using assms(3) by (auto dest: in_set_butlastD)
  with stack_edges_subset [of tgt ip "oe ?u" ?st1] tV
  have s2: "set (stack ?st2) \<subseteq> V" by auto
  then show "set (stack (bfs_iteration oe tgt ip st)) \<subseteq> V"
    by (simp add: bfs_iteration_unfold bfs_vertex_def)
  have "potential V ?st2 \<le> potential V ?st1"
    by (rule potential_edges [OF assms(1) tV])
  moreover have "Suc (potential V ?st1) = potential V st"
    using assms(4) by (simp add: potential_def)
  moreover have "potential V (bfs_iteration oe tgt ip st) \<le> potential V ?st2"
    using white_count_black [OF assms(1), of "pmap_vcolor ?st2" ?u]
    by (simp add: bfs_iteration_unfold bfs_vertex_def potential_def)
  ultimately show "potential V (bfs_iteration oe tgt ip st) < potential V st"
    by simp
qed

text \<open>
  On a finite set of vertices that no followed edge leaves, the main loop returns from
  every state whose deque lies in the set, whatever the colours are.
\<close>

lemma bfs_loop_terminates:
  assumes "finite V" and "closed_under V oe tgt" and "set (stack st) \<subseteq> V"
  shows "\<exists>st'. bfs_loop oe tgt ip st = Some st'"
  using assms(3)
proof (induction "potential V st" arbitrary: st rule: less_induct)
  case less
  show ?case
  proof (cases "stack st = []")
    case True
    then show ?thesis by (simp add: bfs_loop.simps)
  next
    case False
    from potential_iteration [OF assms(1,2) less.prems False, of ip]
    have "\<exists>st'. bfs_loop oe tgt ip (bfs_iteration oe tgt ip st) = Some st'"
      by (intro less.hyps)
    with False show ?thesis by (subst bfs_loop.simps) simp
  qed
qed

section \<open>Every vertex is pushed at most once\<close>

lemma once_inv_edge: "once_inv st \<Longrightarrow> once_inv (bfs_edge tgt ip e st)"
  by (auto simp: once_inv_def bfs_edge_stack bfs_edge_color bfs_edge_trace)

lemma once_inv_edges: "once_inv st \<Longrightarrow> once_inv (bfs_edges tgt ip es st)"
  by (rule bfs_edges_rule) (simp_all add: once_inv_edge)

lemma once_inv_iteration:
  assumes "once_inv st" and "stack st \<noteq> []"
  shows "once_inv (bfs_iteration oe tgt ip st)"
proof -
  let ?u = "last (stack st)"
  let ?st1 = "call (ExamineVertex ?u) (st\<lparr>stack := butlast (stack st)\<rparr>)"
  let ?st2 = "bfs_edges tgt ip (oe ?u) ?st1"
  from assms(2) have split: "stack st = butlast (stack st) @ [?u]" by simp
  have "distinct (examined (trace st) @ butlast (stack st) @ [?u])"
    and "\<forall>v \<in> set (examined (trace st)) \<union> set (butlast (stack st) @ [?u]). pmap_vcolor st v \<noteq> WHITE"
    using assms(1) split unfolding once_inv_def by simp_all
  then have "once_inv ?st1"
    by (auto simp: once_inv_def)
  then have "once_inv ?st2" by (rule once_inv_edges)
  then show ?thesis
    by (auto simp: once_inv_def bfs_iteration_unfold bfs_vertex_def)
qed

lemma once_inv_init:
  assumes "distinct ss" and "\<forall>s \<in> set ss. pmap_vcolor st s = WHITE" and "once_inv st"
  shows "once_inv (init_sources ss st)"
  using assms
proof (induction ss arbitrary: st)
  case Nil
  then show ?case by simp
next
  case (Cons s ss)
  have "once_inv (init_source s st)"
    using Cons.prems by (auto simp: once_inv_def)
  moreover have "\<forall>x \<in> set ss. pmap_vcolor (init_source s st) x = WHITE"
    using Cons.prems by auto
  ultimately show ?case using Cons.IH Cons.prems by simp
qed

lemma examined_iteration:
  "examined (trace (bfs_iteration oe tgt ip st)) = examined (trace st) @ [last (stack st)]"
  by (simp add: bfs_iteration_unfold bfs_vertex_def)

lemma init_sources_color:
  "pmap_vcolor (init_sources ss st) v = (if v \<in> set ss then GRAY else pmap_vcolor st v)"
  by (induction ss arbitrary: st) auto

lemma white_count_init:
  assumes "finite V" and "distinct ss" and "set ss \<subseteq> V"
  shows "card {v \<in> V. pmap_vcolor (init_sources ss st) v = WHITE} + length ss \<le> card V"
proof -
  let ?W = "{v \<in> V. pmap_vcolor (init_sources ss st) v = WHITE}"
  have "?W \<subseteq> V - set ss" by (auto simp: init_sources_color)
  then have "card ?W \<le> card (V - set ss)"
    using assms(1) by (intro card_mono) simp_all
  also have "\<dots> = card V - length ss"
    using assms by (simp add: card_Diff_subset distinct_card)
  finally have "card ?W \<le> card V - length ss" .
  moreover have "length ss \<le> card V"
    using assms by (metis card_mono distinct_card)
  ultimately show ?thesis by simp
qed

lemma bound_inv_iteration:
  assumes "finite V" and "closed_under V oe tgt" and "bound_inv V st" and "stack st \<noteq> []"
  shows "bound_inv V (bfs_iteration oe tgt ip st)"
proof -
  have sub: "set (stack st) \<subseteq> V" using assms(3) by (simp add: bound_inv_def)
  from potential_iteration [OF assms(1,2) sub assms(4), of ip] assms(3)
  show ?thesis by (simp add: bound_inv_def examined_iteration)
qed

lemma bound_inv_init:
  assumes "finite V" and "distinct ss" and "set ss \<subseteq> V"
  shows "bound_inv V (init_sources ss \<lparr>pmap_vcolor = cm, stack = [], trace = []\<rparr>)"
  using white_count_init [OF assms, of "\<lparr>pmap_vcolor = cm, stack = [], trace = []\<rparr>"] assms(3)
  by (simp add: bound_inv_def potential_def)

lemma bfs_loop_iterations:
  "bfs_loop oe tgt ip st = Some st' \<Longrightarrow>
   \<exists>n. st' = (bfs_iteration oe tgt ip ^^ n) st
     \<and> length (examined (trace st')) = length (examined (trace st)) + n"
proof (induction oe tgt ip st st' rule: bfs_loop.raw_induct[rotated 1, consumes 1, case_names 1])
  case (1 loop oe tgt ip st st')
  show ?case
  proof (cases "stack st = []")
    case True
    with 1(2) have "st' = (bfs_iteration oe tgt ip ^^ 0) st" by simp
    then show ?thesis by (intro exI [of _ 0]) simp
  next
    case False
    with 1(2) have "loop oe tgt ip (bfs_iteration oe tgt ip st) = Some st'" by simp
    from 1(1) [OF this] obtain n where
      n: "st' = (bfs_iteration oe tgt ip ^^ n) (bfs_iteration oe tgt ip st)"
      and len: "length (examined (trace st')) =
                  length (examined (trace (bfs_iteration oe tgt ip st))) + n"
      by blast
    from n have "st' = (bfs_iteration oe tgt ip ^^ Suc n) st"
      by (simp only: funpow_Suc_right o_apply)
    moreover from len have "length (examined (trace st')) = length (examined (trace st)) + Suc n"
      by (simp add: examined_iteration)
    ultimately show ?thesis by (intro exI [of _ "Suc n"] conjI)
  qed
qed

text \<open>
  Claim C9. For every finite graph and finite source set the engine terminates. Started
  with every vertex unvisited, it pushes each vertex at most once (the sources at
  initialization, any other vertex when it turns from unvisited to in-progress), so the
  vertices examined, one for each iteration of the main loop, are distinct and at most as
  many as the graph has vertices: the state returned is that after \<open>n\<close> iterations, for
  an \<open>n\<close> not above the number of vertices, and its deque is empty.
\<close>

theorem search_terminates:
  assumes "finite V" and "set sources \<subseteq> V" and "distinct sources"
    and "closed_under V (if forward then out_edges g else in_edges g)
           (if forward then target g else source g)"
  shows "\<exists>st'. breadth_first_search_graph g sources (\<lambda>v. WHITE) if_push forward = Some st'
           \<and> stack st' = []
           \<and> examined (trace st') =
               rev sources @
               pushed (if forward then target g else source g)
                      (case if_push of None \<Rightarrow> (\<lambda>e. True) | Some f \<Rightarrow> f) (trace st')
           \<and> distinct (examined (trace st'))
           \<and> length (examined (trace st')) \<le> card V
           \<and> (\<exists>n. n \<le> card V \<and>
                 st' = (bfs_iteration (if forward then out_edges g else in_edges g)
                          (if forward then target g else source g)
                          (case if_push of None \<Rightarrow> (\<lambda>e. True) | Some f \<Rightarrow> f) ^^ n)
                       (init_sources sources
                          \<lparr>pmap_vcolor = (\<lambda>v. WHITE), stack = [], trace = []\<rparr>))"
proof -
  let ?oe = "if forward then out_edges g else in_edges g"
  let ?tgt = "if forward then target g else source g"
  let ?ip = "case if_push of None \<Rightarrow> (\<lambda>e. True) | Some f \<Rightarrow> f"
  let ?st0 = "\<lparr>pmap_vcolor = (\<lambda>v. WHITE), stack = [], trace = []\<rparr> :: ('a, 'b) bfs_state"
  let ?I = "\<lambda>st. bound_inv V st \<and> once_inv st"
  have unfold: "breadth_first_search_graph g sources (\<lambda>v. WHITE) if_push forward =
                  bfs_loop ?oe ?tgt ?ip (init_sources sources ?st0)"
    by (simp add: breadth_first_search_graph_def Let_def)
  have "set (stack (init_sources sources ?st0)) \<subseteq> V"
    using assms(2) by simp
  from bfs_loop_terminates [OF assms(1,4) this, of ?ip]
  obtain st' where run: "bfs_loop ?oe ?tgt ?ip (init_sources sources ?st0) = Some st'"
    by auto
  have "once_inv ?st0" by (simp add: once_inv_def)
  then have "once_inv (init_sources sources ?st0)"
    using assms(3) by (intro once_inv_init) simp_all
  then have init: "?I (init_sources sources ?st0)"
    using bound_inv_init [OF assms(1,3,2)] by simp
  have "?I st' \<and> stack st' = []"
    by (rule bfs_loop_rule [OF run, where I = ?I, OF init])
       (simp add: bound_inv_iteration [OF assms(1,4)] once_inv_iteration)
  then have "stack st' = []" and "distinct (examined (trace st'))"
    and len: "length (examined (trace st')) \<le> card V"
    by (simp_all add: bound_inv_def once_inv_def)
  moreover have "examined (trace st') = rev sources @ pushed ?tgt ?ip (trace st')"
    using run by (rule fifo_inv_loop)
  moreover from bfs_loop_iterations [OF run] len
  have "\<exists>n. n \<le> card V \<and> st' = (bfs_iteration ?oe ?tgt ?ip ^^ n) (init_sources sources ?st0)"
    by auto
  ultimately show ?thesis
    unfolding unfold using run by (intro exI [of _ st'] conjI)
qed

theorem search_terminates_witness:
  "\<exists>st'. breadth_first_search_graph fork_graph [0] (\<lambda>v. WHITE) None True = Some st'
     \<and> stack st' = []
     \<and> examined (trace st') = [0, 1, 2, 3]
     \<and> distinct (examined (trace st'))
     \<and> length (examined (trace st')) \<le> 4"
proof -
  have fin: "finite {0, 1, 2, 3 :: nat}" and sub: "set [0] \<subseteq> {0, 1, 2, 3 :: nat}"
    and dis: "distinct [0 :: nat]"
    by simp_all
  have cl: "closed_under {0, 1, 2, 3 :: nat}
              (if True then out_edges fork_graph else in_edges fork_graph)
              (if True then target fork_graph else source fork_graph)"
    by (simp add: closed_under_def fork_graph_def graph_of_def)
  from search_terminates [OF fin sub dis cl, of None]
  obtain st' where run: "breadth_first_search_graph fork_graph [0] (\<lambda>v. WHITE) None True = Some st'"
    and rest: "stack st' = []" "distinct (examined (trace st'))"
      "length (examined (trace st')) \<le> card {0, 1, 2, 3 :: nat}"
    by blast
  have "card {0, 1, 2, 3 :: nat} = 4" by simp
  with rest have rest': "stack st' = []" "distinct (examined (trace st'))"
      "length (examined (trace st')) \<le> 4"
    by simp_all
  from fork_run obtain st'' where
    run': "breadth_first_search_graph fork_graph [0] all_white None True = Some st''"
    and ex: "examined (trace st'') = [0, 1, 2, 3]"
    by auto
  from run run' have "st'' = st'" by (simp add: all_white_def)
  with ex have "examined (trace st') = [0, 1, 2, 3]" by simp
  with run rest' show ?thesis
    by (intro exI [of _ st'] conjI)
qed

section \<open>The events about one vertex\<close>

lemma history_append [simp]: "history v (xs @ ys) = history v xs @ history v ys"
  by (simp add: history_def)

lemma history_edge_events:
  "history v (edge_events tgt cm e) =
     (if cm (tgt e) = WHITE \<and> tgt e = v then [SetColor v GRAY, DiscoverVertex v] else [])"
  by (cases "cm (tgt e)") (auto simp: edge_events_def history_def)

lemma life_inv_edge: "life_inv st \<Longrightarrow> life_inv (bfs_edge tgt ip e st)"
  by (auto simp: life_inv_def bfs_edge_trace bfs_edge_color history_edge_events lifecycle_def)

lemma life_inv_edges: "life_inv st \<Longrightarrow> life_inv (bfs_edges tgt ip es st)"
  by (rule bfs_edges_rule) (simp_all add: life_inv_edge)

lemma life_inv_examine: "life_inv st \<Longrightarrow> life_inv (call (ExamineVertex u) (st\<lparr>stack := xs\<rparr>))"
  by (simp add: life_inv_def history_def)

lemma life_inv_finish:
  assumes "life_inv st" and "pmap_vcolor st u = GRAY"
  shows "life_inv (call (FinishVertex u) (set_color u BLACK st))"
  unfolding life_inv_def
proof
  fix v
  from assms(1) have h: "history v (trace st) = lifecycle v (pmap_vcolor st v)"
    by (simp add: life_inv_def)
  show "history v (trace (call (FinishVertex u) (set_color u BLACK st))) =
          lifecycle v (pmap_vcolor (call (FinishVertex u) (set_color u BLACK st)) v)"
  proof (cases "v = u")
    case True
    with h assms(2) show ?thesis by (simp add: lifecycle_def history_def)
  next
    case False
    with h show ?thesis by (simp add: history_def)
  qed
qed

lemma life_inv_iteration:
  assumes "life_inv st" and "gray_inv st" and "stack st \<noteq> []"
  shows "life_inv (bfs_iteration oe tgt ip st)"
proof -
  let ?u = "last (stack st)"
  let ?st1 = "call (ExamineVertex ?u) (st\<lparr>stack := butlast (stack st)\<rparr>)"
  let ?st2 = "bfs_edges tgt ip (oe ?u) ?st1"
  have "life_inv ?st2"
    by (intro life_inv_edges life_inv_examine assms(1))
  moreover have "gray_inv_at ?u ?st2"
    by (intro gray_inv_at_edges gray_inv_pop assms)
  then have "pmap_vcolor ?st2 ?u = GRAY" by (simp add: gray_inv_at_def)
  ultimately show ?thesis
    unfolding bfs_iteration_unfold bfs_vertex_def by (rule life_inv_finish)
qed

lemma life_inv_init:
  assumes "distinct ss" and "\<forall>s \<in> set ss. pmap_vcolor st s = WHITE" and "life_inv st"
  shows "life_inv (init_sources ss st)"
  using assms
proof (induction ss arbitrary: st)
  case Nil
  then show ?case by simp
next
  case (Cons s ss)
  have "life_inv (init_source s st)"
    using Cons.prems by (auto simp: life_inv_def lifecycle_def history_def)
  moreover have "\<forall>x \<in> set ss. pmap_vcolor (init_source s st) x = WHITE"
    using Cons.prems by auto
  ultimately show ?case using Cons.IH Cons.prems by simp
qed

section \<open>What an unfiltered traversal reaches\<close>

lemma reachable_source: "s \<in> S \<Longrightarrow> s \<in> reachable oe tgt S"
  by (auto simp: reachable_def)

lemma reachable_step:
  "u \<in> reachable oe tgt S \<Longrightarrow> e \<in> set (oe u) \<Longrightarrow> tgt e \<in> reachable oe tgt S"
  unfolding reachable_def edge_rel_def
  by (auto intro: rtrancl_into_rtrancl)

lemma gray_waiting_edge:
  "ip e \<Longrightarrow> gray_waiting U st \<Longrightarrow> gray_waiting U (bfs_edge tgt ip e st)"
  by (auto simp: gray_waiting_def bfs_edge_color bfs_edge_stack)

lemma black_closed_edge:
  "black_closed oe tgt st \<Longrightarrow> black_closed oe tgt (bfs_edge tgt' ip e st)"
  by (auto simp: black_closed_def bfs_edge_color)

lemma reach_inv_edge:
  "tgt e \<in> reachable oe tgt S \<Longrightarrow> reach_inv oe tgt S st
     \<Longrightarrow> reach_inv oe tgt S (bfs_edge tgt ip e st)"
  by (auto simp: reach_inv_def bfs_edge_color)

lemma nonwhite_edge:
  "\<forall>s \<in> S. pmap_vcolor st s \<noteq> WHITE \<Longrightarrow> \<forall>s \<in> S. pmap_vcolor (bfs_edge tgt ip e st) s \<noteq> WHITE"
  by (auto simp: bfs_edge_color)

lemma complete_iteration:
  assumes all: "\<And>e. ip e"
    and gray: "gray_inv st" and ne: "stack st \<noteq> []"
    and inv: "gray_waiting {} st \<and> black_closed oe tgt st \<and> reach_inv oe tgt S st
              \<and> (\<forall>s \<in> S. pmap_vcolor st s \<noteq> WHITE)"
  shows "gray_waiting {} (bfs_iteration oe tgt ip st)
         \<and> black_closed oe tgt (bfs_iteration oe tgt ip st)
         \<and> reach_inv oe tgt S (bfs_iteration oe tgt ip st)
         \<and> (\<forall>s \<in> S. pmap_vcolor (bfs_iteration oe tgt ip st) s \<noteq> WHITE)"
proof -
  let ?u = "last (stack st)"
  let ?st1 = "call (ExamineVertex ?u) (st\<lparr>stack := butlast (stack st)\<rparr>)"
  let ?st2 = "bfs_edges tgt ip (oe ?u) ?st1"
  let ?st3 = "bfs_iteration oe tgt ip st"
  have st3: "?st3 = call (FinishVertex ?u) (set_color ?u BLACK ?st2)"
    by (simp add: bfs_iteration_unfold bfs_vertex_def)
  from ne have split: "stack st = butlast (stack st) @ [?u]" by simp
  have ugray: "pmap_vcolor st ?u = GRAY"
    using gray ne by (simp add: gray_inv_def)
  with inv have ureach: "?u \<in> reachable oe tgt S"
    by (simp add: reach_inv_def)
  have w1: "gray_waiting {?u} ?st1"
    unfolding gray_waiting_def
  proof (intro allI impI)
    fix v
    assume "pmap_vcolor ?st1 v = GRAY"
    then have "v \<in> set (stack st)" using inv by (simp add: gray_waiting_def)
    then have "v \<in> set (butlast (stack st) @ [?u])" using split by simp
    then show "v \<in> set (stack ?st1) \<or> v \<in> {?u}" by auto
  qed
  have w2: "gray_waiting {?u} ?st2"
    by (rule bfs_edges_rule [where P = "gray_waiting {?u}", OF w1]) (simp add: gray_waiting_edge all)
  have b1: "black_closed oe tgt ?st1"
    using inv by (simp add: black_closed_def)
  have b2: "black_closed oe tgt ?st2"
    by (rule bfs_edges_rule [where P = "black_closed oe tgt", OF b1]) (simp add: black_closed_edge)
  have r1: "reach_inv oe tgt S ?st1"
    using inv by (simp add: reach_inv_def)
  have r2: "reach_inv oe tgt S ?st2"
    by (rule bfs_edges_rule [where P = "reach_inv oe tgt S", OF r1])
       (simp add: reach_inv_edge reachable_step [OF ureach])
  have n1: "\<forall>s \<in> S. pmap_vcolor ?st1 s \<noteq> WHITE"
    using inv by simp
  have n2: "\<forall>s \<in> S. pmap_vcolor ?st2 s \<noteq> WHITE"
    by (rule bfs_edges_rule [where P = "\<lambda>st. \<forall>s \<in> S. pmap_vcolor st s \<noteq> WHITE", OF n1])
       (rule nonwhite_edge)
  have gat: "gray_inv_at ?u ?st2"
    by (intro gray_inv_at_edges gray_inv_pop gray ne)
  have succ: "\<forall>e \<in> set (oe ?u). pmap_vcolor ?st2 (tgt e) \<noteq> WHITE"
    by (simp add: bfs_edges_not_white)
  have "gray_waiting {} ?st3"
    using w2 gat by (auto simp: st3 gray_waiting_def gray_inv_at_def)
  moreover have "black_closed oe tgt ?st3"
    using b2 succ by (auto simp: st3 black_closed_def)
  moreover have "reach_inv oe tgt S ?st3"
    using r2 ureach by (auto simp: st3 reach_inv_def)
  moreover have "\<forall>s \<in> S. pmap_vcolor ?st3 s \<noteq> WHITE"
    using n2 by (auto simp: st3)
  ultimately show ?thesis by simp
qed

lemma complete_init:
  "gray_waiting {} (init_sources ss \<lparr>pmap_vcolor = (\<lambda>v. WHITE), stack = [], trace = []\<rparr>)
   \<and> black_closed oe tgt (init_sources ss \<lparr>pmap_vcolor = (\<lambda>v. WHITE), stack = [], trace = []\<rparr>)
   \<and> reach_inv oe tgt (set ss)
        (init_sources ss \<lparr>pmap_vcolor = (\<lambda>v. WHITE), stack = [], trace = []\<rparr>)
   \<and> (\<forall>s \<in> set ss.
        pmap_vcolor (init_sources ss \<lparr>pmap_vcolor = (\<lambda>v. WHITE), stack = [], trace = []\<rparr>) s
          \<noteq> WHITE)"
  by (auto simp: gray_waiting_def black_closed_def reach_inv_def init_sources_color
      reachable_source)

lemma final_colors:
  assumes "stack st = []" and "gray_waiting {} st" and "black_closed oe tgt st"
    and "reach_inv oe tgt S st" and "\<forall>s \<in> S. pmap_vcolor st s \<noteq> WHITE"
  shows "pmap_vcolor st v = (if v \<in> reachable oe tgt S then BLACK else WHITE)"
proof -
  have nogray: "\<And>x. pmap_vcolor st x \<noteq> GRAY"
    using assms(1,2) by (auto simp: gray_waiting_def)
  have black: "\<And>x. pmap_vcolor st x \<noteq> WHITE \<Longrightarrow> pmap_vcolor st x = BLACK"
    using nogray by (metis color.exhaust)
  have "pmap_vcolor st y = BLACK" if "(s, y) \<in> (edge_rel oe tgt)\<^sup>*" and "s \<in> S" for s y
    using that
  proof (induction rule: rtrancl_induct)
    case base
    then show ?case using assms(5) black by simp
  next
    case (step y z)
    then have "pmap_vcolor st y = BLACK" by simp
    moreover from step(2) obtain e where "e \<in> set (oe y)" and "tgt e = z"
      by (auto simp: edge_rel_def)
    ultimately have "pmap_vcolor st z \<noteq> WHITE"
      using assms(3) by (auto simp: black_closed_def)
    then show ?case by (rule black)
  qed
  then have "v \<in> reachable oe tgt S \<Longrightarrow> pmap_vcolor st v = BLACK"
    by (auto simp: reachable_def)
  moreover have "v \<notin> reachable oe tgt S \<Longrightarrow> pmap_vcolor st v = WHITE"
    using assms(4) by (auto simp: reach_inv_def)
  ultimately show ?thesis by simp
qed

text \<open>
  Claim C2, as stated: after every run from an all-unvisited colour map, every vertex
  reachable from a source has gone from unvisited to in-progress to finished, and every
  other vertex is unvisited. On the fork graph with source 0 and a filter that rejects
  every edge, vertices 1 and 2 are discovered and left in progress for ever, and vertex
  3, reachable through 2, stays unvisited.
\<close>

theorem filtered_search_incomplete:
  "colors_after (breadth_first_search_graph fork_graph [0] all_white (Some reject_all) True)
       [0, 1, 2, 3] = Some [BLACK, GRAY, GRAY, WHITE]
   \<and> map_option (history 1 \<circ> trace)
       (breadth_first_search_graph fork_graph [0] all_white (Some reject_all) True) =
       Some [SetColor 1 GRAY, DiscoverVertex 1]
   \<and> 1 \<in> reachable (out_edges fork_graph) (target fork_graph) {0}
   \<and> 3 \<in> reachable (out_edges fork_graph) (target fork_graph) {0}"
proof -
  have e1: "(0, 1) \<in> edge_rel (out_edges fork_graph) (target fork_graph)"
    and e2: "(0, 2) \<in> edge_rel (out_edges fork_graph) (target fork_graph)"
    and e3: "(2, 3) \<in> edge_rel (out_edges fork_graph) (target fork_graph)"
    by (simp_all add: edge_rel_def fork_graph_def graph_of_def)
  have "1 \<in> reachable (out_edges fork_graph) (target fork_graph) {0}"
    unfolding reachable_def using e1 by auto
  moreover have "(0, 3) \<in> (edge_rel (out_edges fork_graph) (target fork_graph))\<^sup>*"
    using e2 e3 by (meson rtrancl.rtrancl_into_rtrancl rtrancl.rtrancl_refl)
  then have "3 \<in> reachable (out_edges fork_graph) (target fork_graph) {0}"
    unfolding reachable_def by auto
  moreover have
    "colors_after (breadth_first_search_graph fork_graph [0] all_white (Some reject_all) True)
       [0, 1, 2, 3] = Some [BLACK, GRAY, GRAY, WHITE]"
    by (simp add: colors_after_def reject_all_def bfs_eval fork_graph_def)
  moreover have "map_option (history 1 \<circ> trace)
       (breadth_first_search_graph fork_graph [0] all_white (Some reject_all) True) =
       Some [SetColor 1 GRAY, DiscoverVertex 1]"
    by (simp add: history_def reject_all_def bfs_eval fork_graph_def)
  ultimately show ?thesis by simp
qed

text \<open>
  Claim C2, amended. For every finite graph and every source set, when no edge filter is
  given or the filter accepts every edge, the run from an all-unvisited colour map returns,
  and then every vertex reachable from a source along the edges the traversal follows
  (outgoing ones when \<^verbatim>\<open>forward\<close>, incoming ones otherwise) has gone from unvisited to
  in-progress to finished exactly once, with one \<^verbatim>\<open>discover_vertex\<close> and one
  \<^verbatim>\<open>finish_vertex\<close> call, and every other vertex is still unvisited and was never
  reported.
\<close>

theorem unfiltered_search_complete:
  assumes "finite V" and "set sources \<subseteq> V" and "distinct sources"
    and "closed_under V (if forward then out_edges g else in_edges g)
           (if forward then target g else source g)"
    and "\<And>e. (case if_push of None \<Rightarrow> (\<lambda>e. True) | Some f \<Rightarrow> f) e"
  shows "\<exists>st'. breadth_first_search_graph g sources (\<lambda>v. WHITE) if_push forward = Some st'
           \<and> (\<forall>v. v \<in> reachable (if forward then out_edges g else in_edges g)
                       (if forward then target g else source g) (set sources)
                 \<longrightarrow> pmap_vcolor st' v = BLACK
                     \<and> history v (trace st') =
                         [SetColor v GRAY, DiscoverVertex v, SetColor v BLACK, FinishVertex v])
           \<and> (\<forall>v. v \<notin> reachable (if forward then out_edges g else in_edges g)
                       (if forward then target g else source g) (set sources)
                 \<longrightarrow> pmap_vcolor st' v = WHITE \<and> history v (trace st') = [])"
proof -
  let ?oe = "if forward then out_edges g else in_edges g"
  let ?tgt = "if forward then target g else source g"
  let ?ip = "case if_push of None \<Rightarrow> (\<lambda>e. True) | Some f \<Rightarrow> f"
  let ?S = "set sources"
  let ?st0 = "\<lparr>pmap_vcolor = (\<lambda>v. WHITE), stack = [], trace = []\<rparr> :: ('a, 'b) bfs_state"
  let ?C = "\<lambda>st. gray_waiting {} st \<and> black_closed ?oe ?tgt st \<and> reach_inv ?oe ?tgt ?S st
              \<and> (\<forall>s \<in> ?S. pmap_vcolor st s \<noteq> WHITE)"
  let ?I = "\<lambda>st. gray_inv st \<and> life_inv st \<and> ?C st"
  have unfold: "breadth_first_search_graph g sources (\<lambda>v. WHITE) if_push forward =
                  bfs_loop ?oe ?tgt ?ip (init_sources sources ?st0)"
    by (simp add: breadth_first_search_graph_def Let_def)
  have "set (stack (init_sources sources ?st0)) \<subseteq> V"
    using assms(2) by simp
  from bfs_loop_terminates [OF assms(1,4) this, of ?ip]
  obtain st' where run: "bfs_loop ?oe ?tgt ?ip (init_sources sources ?st0) = Some st'"
    by auto
  have "gray_inv ?st0" and "life_inv ?st0"
    by (simp_all add: gray_inv_def life_inv_def lifecycle_def history_def)
  then have "gray_inv (init_sources sources ?st0)" and "life_inv (init_sources sources ?st0)"
    using assms(3) by (simp_all add: gray_inv_init life_inv_init)
  with complete_init [of sources ?oe ?tgt]
  have init: "?I (init_sources sources ?st0)" by simp
  have step: "?I (bfs_iteration ?oe ?tgt ?ip s)" if "?I s" and "stack s \<noteq> []" for s
  proof -
    from that have g: "gray_inv s" and l: "life_inv s" and c: "?C s" by simp_all
    from complete_iteration [where ip = ?ip and oe = ?oe and tgt = ?tgt and S = ?S,
        OF assms(5) g that(2) c]
      gray_inv_iteration [OF g that(2)] life_inv_iteration [OF l g that(2)]
    show ?thesis by simp
  qed
  have "?I st' \<and> stack st' = []"
    by (rule bfs_loop_rule [OF run, where I = ?I, OF init]) (rule step)
  then have fin: "stack st' = []" and life: "life_inv st'" and c: "?C st'"
    by simp_all
  have col: "pmap_vcolor st' v = (if v \<in> reachable ?oe ?tgt ?S then BLACK else WHITE)" for v
    using fin c by (intro final_colors) simp_all
  have hist: "history v (trace st') = lifecycle v (pmap_vcolor st' v)" for v
    using life by (simp add: life_inv_def)
  have "\<forall>v. v \<in> reachable ?oe ?tgt ?S
                 \<longrightarrow> pmap_vcolor st' v = BLACK
                     \<and> history v (trace st') =
                         [SetColor v GRAY, DiscoverVertex v, SetColor v BLACK, FinishVertex v]"
    by (simp add: hist col lifecycle_def)
  moreover have "\<forall>v. v \<notin> reachable ?oe ?tgt ?S
                 \<longrightarrow> pmap_vcolor st' v = WHITE \<and> history v (trace st') = []"
    by (simp add: hist col lifecycle_def)
  ultimately show ?thesis
    unfolding unfold using run by (intro exI [of _ st'] conjI)
qed

theorem unfiltered_search_complete_witness:
  "\<exists>st'. breadth_first_search_graph fork_graph [0] (\<lambda>v. WHITE) None True = Some st'
     \<and> pmap_vcolor st' 3 = BLACK
     \<and> history 3 (trace st') =
         [SetColor 3 GRAY, DiscoverVertex 3, SetColor 3 BLACK, FinishVertex 3]
     \<and> pmap_vcolor st' 4 = WHITE
     \<and> history 4 (trace st') = []"
proof -
  let ?oe = "out_edges fork_graph" and ?tgt = "target fork_graph"
  have fin: "finite {0, 1, 2, 3, 4 :: nat}" and sub: "set [0] \<subseteq> {0, 1, 2, 3, 4 :: nat}"
    and dis: "distinct [0 :: nat]"
    by simp_all
  have cl: "closed_under {0, 1, 2, 3, 4 :: nat}
              (if True then out_edges fork_graph else in_edges fork_graph)
              (if True then target fork_graph else source fork_graph)"
    by (simp add: closed_under_def fork_graph_def graph_of_def)
  have acc: "\<And>e :: nat \<times> nat \<times> nat. (case None of None \<Rightarrow> (\<lambda>e. True) | Some f \<Rightarrow> f) e"
    by simp
  have e2: "(0, 2) \<in> edge_rel ?oe ?tgt" and e3: "(2, 3) \<in> edge_rel ?oe ?tgt"
    by (simp_all add: edge_rel_def fork_graph_def graph_of_def)
  then have "(0, 3) \<in> (edge_rel ?oe ?tgt)\<^sup>*"
    by (meson rtrancl.rtrancl_into_rtrancl rtrancl.rtrancl_refl)
  then have r3: "3 \<in> reachable ?oe ?tgt (set [0])"
    unfolding reachable_def by auto
  have "y \<noteq> 4" if "(0, y) \<in> (edge_rel ?oe ?tgt)\<^sup>*" for y
    using that
  proof (induction rule: rtrancl_induct)
    case base
    show ?case by simp
  next
    case (step y z)
    from step(2) show ?case
      by (auto simp: edge_rel_def fork_graph_def graph_of_def split: if_splits)
  qed
  then have r4: "4 \<notin> reachable ?oe ?tgt (set [0])"
    unfolding reachable_def by auto
  from unfiltered_search_complete [OF fin sub dis cl acc]
  obtain st' where run: "breadth_first_search_graph fork_graph [0] (\<lambda>v. WHITE) None True = Some st'"
    and yes: "\<forall>v. v \<in> reachable ?oe ?tgt (set [0])
                 \<longrightarrow> pmap_vcolor st' v = BLACK
                     \<and> history v (trace st') =
                         [SetColor v GRAY, DiscoverVertex v, SetColor v BLACK, FinishVertex v]"
    and no: "\<forall>v. v \<notin> reachable ?oe ?tgt (set [0])
                 \<longrightarrow> pmap_vcolor st' v = WHITE \<and> history v (trace st') = []"
    by auto
  from yes r3 have "pmap_vcolor st' 3 = BLACK"
    and "history 3 (trace st') =
         [SetColor 3 GRAY, DiscoverVertex 3, SetColor 3 BLACK, FinishVertex 3]"
    by blast+
  moreover from no r4 have "pmap_vcolor st' 4 = WHITE" and "history 4 (trace st') = []"
    by blast+
  ultimately show ?thesis using run
    by (intro exI [of _ st'] conjI)
qed

section \<open>A rejected edge in a run\<close>

lemma reported_append:
  "reported tgt cm xs \<Longrightarrow> reported tgt (replay cm xs) ys \<Longrightarrow> reported tgt cm (xs @ ys)"
proof (induction xs arbitrary: cm)
  case Nil
  then show ?case by simp
next
  case (Cons x xs)
  show ?case
  proof (cases x)
    case (ExamineEdge e)
    from Cons.prems ExamineEdge have rest: "reported tgt cm xs"
      and three: "cm (tgt e) = WHITE \<longrightarrow>
                    take 3 xs = [TreeEdge e, SetColor (tgt e) GRAY, DiscoverVertex (tgt e)]"
      and ys: "reported tgt (replay cm xs) ys"
      by simp_all
    have "take 3 (xs @ ys) = [TreeEdge e, SetColor (tgt e) GRAY, DiscoverVertex (tgt e)]"
      if w: "cm (tgt e) = WHITE"
    proof -
      from three w have t: "take 3 xs = [TreeEdge e, SetColor (tgt e) GRAY, DiscoverVertex (tgt e)]"
        by simp
      then have "length (take 3 xs) = 3" by simp
      then have "3 \<le> length xs" by simp
      then show ?thesis using t by simp
    qed
    moreover have "reported tgt cm (xs @ ys)"
      using rest ys by (rule Cons.IH)
    ultimately show ?thesis using ExamineEdge by simp
  next
    case (SetColor v c)
    with Cons.prems have "reported tgt (cm(v := c)) xs"
      and "reported tgt (replay (cm(v := c)) xs) ys"
      by simp_all
    then have "reported tgt (cm(v := c)) (xs @ ys)" by (rule Cons.IH)
    with SetColor show ?thesis by simp
  qed (use Cons in simp_all)
qed

lemma reported_suffix:
  "reported tgt cm (xs @ ys) \<Longrightarrow> reported tgt (replay cm xs) ys"
proof (induction xs arbitrary: cm)
  case Nil
  then show ?case by simp
next
  case (Cons x xs)
  show ?case
  proof (cases x)
    case (SetColor v c)
    with Cons.prems have "reported tgt (cm(v := c)) (xs @ ys)" by simp
    then have "reported tgt (replay (cm(v := c)) xs) ys" by (rule Cons.IH)
    with SetColor show ?thesis by simp
  qed (use Cons in simp_all)
qed

lemma reported_edge_events: "reported tgt cm (edge_events tgt cm e)"
  by (cases "cm (tgt e)") (simp_all add: edge_events_def)

lemma report_inv_step:
  assumes "report_inv tgt cm st" and "reported tgt (pmap_vcolor st) evs"
    and "trace st1 = trace st @ evs" and "pmap_vcolor st1 = replay (pmap_vcolor st) evs"
  shows "report_inv tgt cm st1"
  using assms by (simp add: report_inv_def reported_append)

lemma report_inv_edge: "report_inv tgt cm st \<Longrightarrow> report_inv tgt cm (bfs_edge tgt ip e st)"
  by (erule report_inv_step [where evs = "edge_events tgt (pmap_vcolor st) e"])
     (simp_all add: reported_edge_events bfs_edge_trace bfs_edge_color)

lemma report_inv_edges: "report_inv tgt cm st \<Longrightarrow> report_inv tgt cm (bfs_edges tgt ip es st)"
  by (rule bfs_edges_rule) (simp_all add: report_inv_edge)

lemma report_inv_init: "report_inv tgt cm st \<Longrightarrow> report_inv tgt cm (init_sources ss st)"
proof (induction ss arbitrary: st)
  case Nil
  then show ?case by simp
next
  case (Cons s ss)
  have "report_inv tgt cm (init_source s st)"
    by (rule report_inv_step [OF Cons.prems, where evs = "[SetColor s GRAY, DiscoverVertex s]"])
       simp_all
  then show ?case by (simp add: Cons.IH)
qed

lemma report_inv_iteration:
  assumes "report_inv tgt cm st"
  shows "report_inv tgt cm (bfs_iteration oe tgt ip st)"
proof -
  let ?u = "last (stack st)"
  let ?st0 = "st\<lparr>stack := butlast (stack st)\<rparr>"
  have "report_inv tgt cm (call (ExamineVertex ?u) ?st0)"
    by (rule report_inv_step [OF assms, where evs = "[ExamineVertex ?u]"]) simp_all
  then have e: "report_inv tgt cm (bfs_edges tgt ip (oe ?u) (call (ExamineVertex ?u) ?st0))"
    by (rule report_inv_edges)
  show ?thesis
    by (rule report_inv_step [OF e, where evs = "[SetColor ?u BLACK, FinishVertex ?u]"])
       (simp_all add: bfs_iteration_unfold bfs_vertex_def)
qed

lemma trace_edges_mono: "set (trace st) \<subseteq> set (trace (bfs_edges tgt ip es st))"
proof (induction es arbitrary: st)
  case Nil
  show ?case by simp
next
  case (Cons a es)
  have "set (trace st) \<subseteq> set (trace (bfs_edge tgt ip a st))"
    by (simp add: bfs_edge_trace)
  also have "\<dots> \<subseteq> set (trace (bfs_edges tgt ip es (bfs_edge tgt ip a st)))"
    by (rule Cons.IH)
  finally show ?case by simp
qed

lemma trace_edges_examine:
  "e \<in> set es \<Longrightarrow> ExamineEdge e \<in> set (trace (bfs_edges tgt ip es st))"
proof (induction es arbitrary: st)
  case Nil
  then show ?case by simp
next
  case (Cons a es)
  show ?case
  proof (cases "e = a")
    case True
    have "ExamineEdge a \<in> set (trace (bfs_edge tgt ip a st))"
      by (simp add: bfs_edge_trace edge_events_def)
    with trace_edges_mono [of "bfs_edge tgt ip a st" tgt ip es] True show ?thesis
      by auto
  next
    case False
    with Cons show ?thesis by simp
  qed
qed

lemma edges_examined_iteration:
  assumes "edges_examined oe st"
  shows "edges_examined oe (bfs_iteration oe tgt ip st)"
proof -
  let ?u = "last (stack st)"
  let ?st1 = "call (ExamineVertex ?u) (st\<lparr>stack := butlast (stack st)\<rparr>)"
  let ?st2 = "bfs_edges tgt ip (oe ?u) ?st1"
  have tr: "trace (bfs_iteration oe tgt ip st) = trace ?st2 @ [SetColor ?u BLACK, FinishVertex ?u]"
    by (simp add: bfs_iteration_unfold bfs_vertex_def)
  have ex: "examined (trace (bfs_iteration oe tgt ip st)) = examined (trace st) @ [?u]"
    by (rule examined_iteration)
  have old: "set (trace st) \<subseteq> set (trace ?st2)"
    using trace_edges_mono [of ?st1 tgt ip "oe ?u"] by auto
  show ?thesis
    unfolding edges_examined_def
  proof (intro ballI)
    fix w e
    assume w: "w \<in> set (examined (trace (bfs_iteration oe tgt ip st)))" and e: "e \<in> set (oe w)"
    have "ExamineEdge e \<in> set (trace ?st2)"
    proof (cases "w = ?u")
      case True
      with e show ?thesis by (simp add: trace_edges_examine)
    next
      case False
      with w ex have "w \<in> set (examined (trace st))" by simp
      with assms e have "ExamineEdge e \<in> set (trace st)" by (simp add: edges_examined_def)
      with old show ?thesis by auto
    qed
    then show "ExamineEdge e \<in> set (trace (bfs_iteration oe tgt ip st))"
      by (simp add: tr)
  qed
qed

lemma pushed_all_member: "TreeEdge e \<in> set evs \<Longrightarrow> tgt e \<in> set (pushed tgt (\<lambda>e. True) evs)"
proof (induction evs)
  case Nil
  then show ?case by simp
next
  case (Cons x evs)
  then show ?case by (cases x) auto
qed

lemma pushed_subset: "set (pushed tgt ip evs) \<subseteq> set (pushed tgt (\<lambda>e. True) evs)"
proof (induction evs)
  case Nil
  show ?case by simp
next
  case (Cons x evs)
  then show ?case by (cases x) auto
qed

lemma rejected_not_pushed:
  "TreeEdge e \<in> set evs \<Longrightarrow> \<not> ip e \<Longrightarrow> distinct (pushed tgt (\<lambda>e. True) evs)
     \<Longrightarrow> tgt e \<notin> set (pushed tgt ip evs)"
proof (induction evs)
  case Nil
  then show ?case by simp
next
  case (Cons x evs)
  show ?case
  proof (cases x)
    case (TreeEdge a)
    from Cons.prems(3) TreeEdge have d: "distinct (pushed tgt (\<lambda>e. True) evs)"
      and fresh: "tgt a \<notin> set (pushed tgt (\<lambda>e. True) evs)"
      by simp_all
    show ?thesis
    proof (cases "TreeEdge e \<in> set evs")
      case True
      from Cons.IH [OF True Cons.prems(2) d] have ih: "tgt e \<notin> set (pushed tgt ip evs)" .
      from pushed_all_member [OF True, of tgt] fresh have "tgt a \<noteq> tgt e" by auto
      with ih TreeEdge show ?thesis by simp
    next
      case False
      with Cons.prems(1) TreeEdge have "a = e" by simp
      with fresh pushed_subset [of tgt ip evs] have "tgt e \<notin> set (pushed tgt ip evs)"
        by auto
      with TreeEdge \<open>a = e\<close> Cons.prems(2) show ?thesis by simp
    qed
  qed (use Cons in simp_all)
qed

lemma disc_inv_edge: "disc_inv tgt ss st \<Longrightarrow> disc_inv tgt ss (bfs_edge tgt ip e st)"
  by (auto simp: disc_inv_def bfs_edge_trace bfs_edge_color split: if_splits)

lemma disc_inv_edges: "disc_inv tgt ss st \<Longrightarrow> disc_inv tgt ss (bfs_edges tgt ip es st)"
  by (rule bfs_edges_rule) (simp_all add: disc_inv_edge)

lemma disc_inv_iteration:
  assumes "disc_inv tgt ss st"
  shows "disc_inv tgt ss (bfs_iteration oe tgt ip st)"
proof -
  let ?u = "last (stack st)"
  let ?st1 = "call (ExamineVertex ?u) (st\<lparr>stack := butlast (stack st)\<rparr>)"
  let ?st2 = "bfs_edges tgt ip (oe ?u) ?st1"
  have "disc_inv tgt ss ?st1"
    using assms by (auto simp: disc_inv_def)
  then have d2: "disc_inv tgt ss ?st2" by (rule disc_inv_edges)
  have ex2: "examined (trace ?st2) = examined (trace st) @ [?u]" by simp
  show ?thesis
    using d2 ex2
    by (auto simp: disc_inv_def bfs_iteration_unfold bfs_vertex_def)
qed

lemma disc_inv_init:
  "disc_inv tgt ss (init_sources ss \<lparr>pmap_vcolor = cm, stack = [], trace = []\<rparr>)"
  by (simp add: disc_inv_def init_sources_color)

lemma rejecting_run:
  "\<exists>st'. breadth_first_search_graph fork_graph [0] all_white (Some reject_all) True = Some st'
     \<and> trace st' =
         [SetColor 0 GRAY, DiscoverVertex 0,
          ExamineVertex 0, ExamineEdge (0, 1, 0), TreeEdge (0, 1, 0),
          SetColor 1 GRAY, DiscoverVertex 1, ExamineEdge (0, 2, 1), TreeEdge (0, 2, 1),
          SetColor 2 GRAY, DiscoverVertex 2, SetColor 0 BLACK, FinishVertex 0]"
proof -
  have "map_option trace
          (breadth_first_search_graph fork_graph [0] all_white (Some reject_all) True) =
        Some [SetColor 0 GRAY, DiscoverVertex 0,
          ExamineVertex 0, ExamineEdge (0, 1, 0), TreeEdge (0, 1, 0),
          SetColor 1 GRAY, DiscoverVertex 1, ExamineEdge (0, 2, 1), TreeEdge (0, 2, 1),
          SetColor 2 GRAY, DiscoverVertex 2, SetColor 0 BLACK, FinishVertex 0]"
    by code_simp
  then show ?thesis by auto
qed

text \<open>
  Claim C6. In every run of \<^verbatim>\<open>breadth_first_search_graph\<close> that returns, every edge
  of every examined vertex is reported by \<^verbatim>\<open>examine_edge\<close>; wherever the far endpoint
  \<open>v\<close> of the edge \<open>e\<close> so reported is unvisited at that moment, the next three events
  are \<^verbatim>\<open>tree_edge(e)\<close>, the write that marks \<open>v\<close> in-progress and
  \<^verbatim>\<open>discover_vertex(v)\<close>, whether or not \<^verbatim>\<open>if_push\<close> accepts \<open>e\<close>; and only
  pushing is skipped for a rejected edge: the vertices examined are the sources and the
  far endpoints of the accepted tree edges, so that the far endpoint of a rejected tree
  edge is never examined and is still in progress when the run returns.
\<close>

theorem rejected_edge_still_reported:
  fixes g :: "('v, 'e) graph" and forward :: bool and if_push :: "('e \<Rightarrow> bool) option"
    and oe :: "'v \<Rightarrow> 'e list" and tgt :: "'e \<Rightarrow> 'v" and ip :: "'e \<Rightarrow> bool"
  defines "oe \<equiv> if forward then out_edges g else in_edges g"
    and "tgt \<equiv> if forward then target g else source g"
    and "ip \<equiv> case if_push of None \<Rightarrow> (\<lambda>e. True) | Some f \<Rightarrow> f"
  assumes run: "breadth_first_search_graph g sources pmap if_push forward = Some st'"
  shows "(u \<in> set (examined (trace st')) \<and> e \<in> set (oe u)
            \<longrightarrow> ExamineEdge e \<in> set (trace st'))
       \<and> (trace st' = pre @ ExamineEdge e # post \<and> replay pmap pre (tgt e) = WHITE
            \<longrightarrow> (\<exists>rest. post =
                   TreeEdge e # SetColor (tgt e) GRAY # DiscoverVertex (tgt e) # rest))
       \<and> examined (trace st') = rev sources @ pushed tgt ip (trace st')
       \<and> (TreeEdge e \<in> set (trace st') \<and> \<not> ip e
            \<longrightarrow> pmap_vcolor st' (tgt e) = GRAY \<and> tgt e \<notin> set (examined (trace st')))"
proof -
  let ?st0 = "\<lparr>pmap_vcolor = pmap, stack = [], trace = []\<rparr> :: ('v, 'e) bfs_state"
  let ?I = "\<lambda>st. report_inv tgt pmap st \<and> edges_examined oe st \<and> disc_inv tgt sources st"
  have loop: "bfs_loop oe tgt ip (init_sources sources ?st0) = Some st'"
    using run by (simp add: breadth_first_search_graph_def Let_def oe_def tgt_def ip_def)
  have "report_inv tgt pmap ?st0" by (simp add: report_inv_def)
  then have "report_inv tgt pmap (init_sources sources ?st0)" by (rule report_inv_init)
  moreover have "edges_examined oe (init_sources sources ?st0)"
    by (simp add: edges_examined_def)
  moreover have "disc_inv tgt sources (init_sources sources ?st0)"
    by (rule disc_inv_init)
  ultimately have init: "?I (init_sources sources ?st0)" by simp
  have "?I st' \<and> stack st' = []"
    by (rule bfs_loop_rule [OF loop, where I = ?I, OF init])
       (simp add: report_inv_iteration edges_examined_iteration disc_inv_iteration)
  then have rep: "reported tgt pmap (trace st')" and exa: "edges_examined oe st'"
    and disc: "disc_inv tgt sources st'"
    by (simp_all add: report_inv_def)
  have fifo: "examined (trace st') = rev sources @ pushed tgt ip (trace st')"
    using loop by (rule fifo_inv_loop)
  have one: "ExamineEdge e \<in> set (trace st')"
    if "u \<in> set (examined (trace st')) \<and> e \<in> set (oe u)"
    using exa that by (auto simp: edges_examined_def)
  have two: "\<exists>rest. post = TreeEdge e # SetColor (tgt e) GRAY # DiscoverVertex (tgt e) # rest"
    if h: "trace st' = pre @ ExamineEdge e # post \<and> replay pmap pre (tgt e) = WHITE"
  proof -
    from rep h have "reported tgt pmap (pre @ ExamineEdge e # post)" by simp
    then have "reported tgt (replay pmap pre) (ExamineEdge e # post)"
      by (rule reported_suffix)
    with h have t: "take 3 post = [TreeEdge e, SetColor (tgt e) GRAY, DiscoverVertex (tgt e)]"
      by simp
    have "post = take 3 post @ drop 3 post" by simp
    with t have "post =
        TreeEdge e # SetColor (tgt e) GRAY # DiscoverVertex (tgt e) # drop 3 post"
      by simp
    then show ?thesis by (rule exI)
  qed
  have four: "pmap_vcolor st' (tgt e) = GRAY \<and> tgt e \<notin> set (examined (trace st'))"
    if h: "TreeEdge e \<in> set (trace st') \<and> \<not> ip e"
  proof -
    from h have mem: "tgt e \<in> set (pushed tgt (\<lambda>e. True) (trace st'))"
      by (simp add: pushed_all_member)
    from disc have dis: "distinct (pushed tgt (\<lambda>e. True) (trace st'))"
      and src: "set sources \<inter> set (pushed tgt (\<lambda>e. True) (trace st')) = {}"
      and gray: "\<forall>v \<in> set (pushed tgt (\<lambda>e. True) (trace st')).
                   v \<notin> set (examined (trace st')) \<longrightarrow> pmap_vcolor st' v = GRAY"
      by (simp_all add: disc_inv_def)
    from h dis have "tgt e \<notin> set (pushed tgt ip (trace st'))"
      by (simp add: rejected_not_pushed)
    moreover from src mem have "tgt e \<notin> set sources" by auto
    ultimately have "tgt e \<notin> set (examined (trace st'))"
      by (simp add: fifo)
    with gray mem show ?thesis by simp
  qed
  from one two fifo four show ?thesis by blast
qed

theorem rejected_edge_still_reported_witness:
  "\<exists>st'. breadth_first_search_graph fork_graph [0] all_white (Some reject_all) True = Some st'
     \<and> ExamineEdge (0, 2, 1) \<in> set (trace st')
     \<and> (\<exists>rest. drop 8 (trace st') =
           TreeEdge (0, 2, 1) # SetColor 2 GRAY # DiscoverVertex 2 # rest)
     \<and> examined (trace st') = [0]
     \<and> pmap_vcolor st' 2 = GRAY
     \<and> 2 \<notin> set (examined (trace st'))"
proof -
  let ?pre = "[SetColor 0 GRAY, DiscoverVertex 0, ExamineVertex 0, ExamineEdge (0, 1, 0),
               TreeEdge (0, 1, 0), SetColor 1 GRAY, DiscoverVertex 1]
              :: (nat, nat \<times> nat \<times> nat) event list"
  let ?post = "[TreeEdge (0, 2, 1), SetColor 2 GRAY, DiscoverVertex 2, SetColor 0 BLACK,
                FinishVertex 0] :: (nat, nat \<times> nat \<times> nat) event list"
  obtain st' where
    run: "breadth_first_search_graph fork_graph [0] all_white (Some reject_all) True = Some st'"
    and tr: "trace st' = ?pre @ ExamineEdge (0, 2, 1) # ?post"
    using rejecting_run by auto
  have ex0: "0 \<in> set (examined (trace st'))
             \<and> (0, 2, 1) \<in> set ((if True then out_edges fork_graph else in_edges fork_graph) 0)"
    by (simp add: tr fork_graph_def graph_of_def)
  have white: "trace st' = ?pre @ ExamineEdge (0, 2, 1) # ?post
               \<and> replay all_white ?pre
                   ((if True then target fork_graph else source fork_graph) (0, 2, 1)) = WHITE"
    by (simp add: tr fork_graph_def graph_of_def all_white_def)
  have rej: "TreeEdge (0, 2, 1) \<in> set (trace st')
             \<and> \<not> (case Some reject_all of None \<Rightarrow> (\<lambda>e. True) | Some f \<Rightarrow> f)
                   ((0, 2, 1) :: nat \<times> nat \<times> nat)"
    by (simp add: tr reject_all_def)
  have tg: "(if True then target fork_graph else source fork_graph) (0, 2, 1) = 2"
    by (simp add: fork_graph_def graph_of_def)
  have psh: "pushed (if True then target fork_graph else source fork_graph)
               (case Some reject_all of None \<Rightarrow> (\<lambda>e. True) | Some f \<Rightarrow> f) (trace st') = []"
    by (simp add: tr reject_all_def)
  note inst = rejected_edge_still_reported
    [OF run, where u = 0 and e = "(0, 2, 1)" and pre = ?pre and post = ?post]
  from inst ex0 have a: "ExamineEdge (0, 2, 1) \<in> set (trace st')" by blast
  from inst white tg
  have "\<exists>rest. ?post = TreeEdge (0, 2, 1) # SetColor 2 GRAY # DiscoverVertex 2 # rest"
    by simp
  then have b: "\<exists>rest. drop 8 (trace st') =
           TreeEdge (0, 2, 1) # SetColor 2 GRAY # DiscoverVertex 2 # rest"
    by (simp add: tr)
  from inst psh have c: "examined (trace st') = [0]" by simp
  from inst rej
  have "pmap_vcolor st' ((if True then target fork_graph else source fork_graph) (0, 2, 1)) = GRAY
        \<and> (if True then target fork_graph else source fork_graph) (0, 2, 1)
            \<notin> set (examined (trace st'))"
    by blast
  then have d: "pmap_vcolor st' 2 = GRAY" and e: "2 \<notin> set (examined (trace st'))"
    unfolding tg by blast+
  from run a b c d e show ?thesis
    by (intro exI [of _ st'] conjI)
qed

section \<open>Tied shortest paths\<close>

lemma relax_tie:
  assumes "distance_map st u + enat (weight e) = distance_map st (tgt e)"
  shows "relax weight tgt u e st =
           st\<lparr>predecessor_map := (predecessor_map st)(tgt e \<mapsto> insert e (preds st (tgt e)))\<rparr>"
  using assms by (simp add: relax_def Let_def)

lemma two_parallel_edges:
  fixes g :: "('v, 'e) graph"
  assumes "out_edges g u = [e1, e2]" and "out_edges g v = []"
    and "target g e1 = v" and "target g e2 = v" and "u \<noteq> v"
    and "weight e1 = 1" and "weight e2 = 1"
  shows "dijkstra_shortest_paths g u weight =
           Some \<lparr>distance_map = (\<lambda>x. \<infinity>)(u := 0, v := 1),
                 predecessor_map = [v \<mapsto> {e2, e1}], queue = []\<rparr>"
proof -
  let ?st0 = "\<lparr>distance_map = (\<lambda>x. \<infinity>)(u := 0), predecessor_map = Map.empty, queue = [u]\<rparr>
                :: ('v, 'e) dijkstra_state"
  let ?st1 = "\<lparr>distance_map = (\<lambda>x. \<infinity>)(u := 0, v := 1),
               predecessor_map = [v \<mapsto> {e1}], queue = [v]\<rparr> :: ('v, 'e) dijkstra_state"
  let ?st2 = "\<lparr>distance_map = (\<lambda>x. \<infinity>)(u := 0, v := 1),
               predecessor_map = [v \<mapsto> {e2, e1}], queue = [v]\<rparr> :: ('v, 'e) dijkstra_state"
  have r1: "relax weight (target g) u e1
              \<lparr>distance_map = (\<lambda>x. \<infinity>)(u := 0), predecessor_map = Map.empty, queue = []\<rparr> = ?st1"
    using assms by (simp add: relax_def Let_def one_enat_def zero_enat_def)
  have r2: "relax weight (target g) u e2 ?st1 = ?st2"
    using assms by (simp add: relax_def Let_def preds_def one_enat_def zero_enat_def)
  have "dijkstra_shortest_paths g u weight = dijkstra_loop (out_edges g) (target g) weight ?st2"
    unfolding dijkstra_shortest_paths_def
    by (subst dijkstra_loop.simps) (simp add: assms(1) r1 r2)
  also have "\<dots> = dijkstra_loop (out_edges g) (target g) weight (?st2\<lparr>queue := []\<rparr>)"
    by (subst dijkstra_loop.simps) (simp add: assms(2))
  also have "\<dots> = Some (?st2\<lparr>queue := []\<rparr>)"
    by (subst dijkstra_loop.simps) simp
  finally show ?thesis by simp
qed

text \<open>
  Claim C5. On a directed graph whose only edges are two parallel edges \<open>e1\<close> and \<open>e2\<close>
  from \<open>u\<close> to \<open>v\<close>, both of weight 1, \<^verbatim>\<open>dijkstra_shortest_paths\<close> from \<open>u\<close> ends with
  the predecessor map that has the one key \<open>v\<close>, bound to \<open>{e1, e2}\<close>, and with the
  distances 0 for \<open>u\<close> and 1 for \<open>v\<close>. In general a relaxation whose candidate equals
  the distance of the far endpoint adds the edge to the predecessor set of that vertex
  and changes neither a distance nor the priority structure.
\<close>

theorem dijkstra_keeps_ties:
  "(out_edges g u = [e1, e2] \<and> out_edges g v = [] \<and> target g e1 = v \<and> target g e2 = v
      \<and> u \<noteq> v \<and> weight e1 = 1 \<and> weight e2 = 1
    \<longrightarrow> (\<exists>st'. dijkstra_shortest_paths g u weight = Some st'
          \<and> predecessor_map st' = [v \<mapsto> {e1, e2}]
          \<and> distance_map st' u = 0 \<and> distance_map st' v = 1))
   \<and> (distance_map st x + enat (weight e) = distance_map st (tgt e)
    \<longrightarrow> relax weight tgt x e st =
          st\<lparr>predecessor_map := (predecessor_map st)(tgt e \<mapsto> insert e (preds st (tgt e)))\<rparr>
        \<and> distance_map (relax weight tgt x e st) = distance_map st
        \<and> queue (relax weight tgt x e st) = queue st)"
proof (intro conjI impI)
  assume "out_edges g u = [e1, e2] \<and> out_edges g v = [] \<and> target g e1 = v \<and> target g e2 = v
      \<and> u \<noteq> v \<and> weight e1 = 1 \<and> weight e2 = 1"
  then have "dijkstra_shortest_paths g u weight =
           Some \<lparr>distance_map = (\<lambda>x. \<infinity>)(u := 0, v := 1),
                 predecessor_map = [v \<mapsto> {e2, e1}], queue = []\<rparr>"
    and "u \<noteq> v"
    by (simp_all add: two_parallel_edges)
  then show "\<exists>st'. dijkstra_shortest_paths g u weight = Some st'
          \<and> predecessor_map st' = [v \<mapsto> {e1, e2}]
          \<and> distance_map st' u = 0 \<and> distance_map st' v = 1"
    by (simp add: insert_commute)
next
  assume tie: "distance_map st x + enat (weight e) = distance_map st (tgt e)"
  show "relax weight tgt x e st =
          st\<lparr>predecessor_map := (predecessor_map st)(tgt e \<mapsto> insert e (preds st (tgt e)))\<rparr>"
    using tie by (rule relax_tie)
  then show "distance_map (relax weight tgt x e st) = distance_map st"
    and "queue (relax weight tgt x e st) = queue st"
    by simp_all
qed

theorem dijkstra_keeps_ties_witness:
  "(\<exists>st'. dijkstra_shortest_paths parallel_graph 0 unit_weight = Some st'
          \<and> predecessor_map st' = [1 \<mapsto> {(0, 1, 0), (0, 1, 1)}]
          \<and> distance_map st' 0 = 0 \<and> distance_map st' 1 = 1)
   \<and> relax unit_weight (target parallel_graph) 0 (0, 1, 1)
        \<lparr>distance_map = (\<lambda>x. \<infinity>)(0 := 0, 1 := 1),
         predecessor_map = [1 \<mapsto> {(0, 1, 0)}], queue = [1]\<rparr> =
      \<lparr>distance_map = (\<lambda>x. \<infinity>)(0 := 0, 1 := 1),
       predecessor_map = [1 \<mapsto> {(0, 1, 0), (0, 1, 1)}], queue = [1]\<rparr>"
  using dijkstra_keeps_ties
    [of parallel_graph 0 "(0, 1, 0)" "(0, 1, 1)" 1 unit_weight
        "\<lparr>distance_map = (\<lambda>x. \<infinity>)(0 := 0, 1 := 1),
          predecessor_map = [1 \<mapsto> {(0, 1, 0)}], queue = [1]\<rparr>"
        0 "(0, 1, 1)" "target parallel_graph"]
  by (simp add: parallel_graph_def graph_of_def unit_weight_def preds_def one_enat_def
      zero_enat_def insert_commute)

end
